theory Spec2Isabelle
  imports Complex_Main
begin

section \<open>Modelling conventions\<close>

text \<open>
  The engine keeps five collections in a transactional document store: rounds, users,
  userCodes, winners and payments. Documents of rounds, userCodes, winners and payments get
  an auto-generated identifier when they are created; the model keeps each such collection
  as the list of its documents in creation order and uses the position of a document as its
  identifier, so that a new document never takes the identifier of an old one. Users are
  keyed by the authenticated uid.

  The store is the one the specification describes: serializable transactions whose reads
  return the committed state of the documents read and whose writes take effect together
  at commit. A read that an operation issues after a write of the same transaction reads
  another document than the ones written, so it returns what it would have returned first.

  Timestamps are milliseconds. Every reading of a clock is an argument of the operation
  that reads it: \<open>now\<close> is the handler's clock (\<^verbatim>\<open>new Date()\<close>) and \<open>ts\<close> is the
  server timestamp that the commit writes (\<^verbatim>\<open>FieldValue.serverTimestamp()\<close>), the same
  for all writes of one transaction. An operation that only writes server timestamps
  takes that one value.
\<close>

type_synonym digits = "int list"

text \<open>
  The random source: \<open>rnd k\<close> is what the \<open>k\<close>-th call of
  \<^verbatim>\<open>Math.floor(Math.random() * 10)\<close> yields (reduced modulo 10 where it is read).
\<close>

type_synonym random_source = "nat \<Rightarrow> nat"

section \<open>Code generation\<close>

subsection \<open>The server's generator (generateSecretCode)\<close>

definition drawDigits :: "random_source \<Rightarrow> nat \<Rightarrow> nat \<Rightarrow> nat list" where
  "drawDigits rnd pos n = map (\<lambda>i. rnd (pos + i) mod 10) [0..<n]"

text \<open>Rule 2 of generateSecretCode: the for loop over the code with its counter.\<close>

function rule2_loop :: "digits \<Rightarrow> nat \<Rightarrow> nat \<Rightarrow> bool" where
  "rule2_loop code i consecutiveCount =
     (if i < length code then
        (let c = (if i > 0 \<and> code ! i = code ! (i - 1) then consecutiveCount + 1 else 1)
         in if c > 3 then False else rule2_loop code (i + 1) c)
      else True)"
  by pat_completeness auto
termination
  by (relation "measure (\<lambda>(code, i, c). length code - i)") auto

declare rule2_loop.simps [simp del]

text \<open>
  The do-while loop draws seven digits and draws again while a rule fails. It has no bound,
  so it is a partial function: \<open>None\<close> is a loop that never leaves. The result carries the
  position reached in the random source.
\<close>

partial_function (option) generateSecretCode :: "random_source \<Rightarrow> nat \<Rightarrow> (digits \<times> nat) option" where
  "generateSecretCode rnd pos =
     (let code = map int (drawDigits rnd pos 7) in
      if card (set code) = 1 then generateSecretCode rnd (pos + 7)
      else if \<not> rule2_loop code 0 0 then generateSecretCode rnd (pos + 7)
      else Some (code, pos + 7))"

declare generateSecretCode.simps [code]

definition areCodesEqual :: "digits \<Rightarrow> digits \<Rightarrow> bool" where
  "areCodesEqual code1 code2 =
     (if length code1 \<noteq> 7 \<or> length code2 \<noteq> 7 then False
      else list_all (\<lambda>i. code1 ! i = code2 ! i) [0..<7])"

subsection \<open>The client's generator (generateValidCode)\<close>

text \<open>
  The client keeps a code as an array of one-character strings; the model keeps the list of
  those characters, which is also what \<^verbatim>\<open>code.join('')\<close> yields.
\<close>

definition digit_char :: "nat \<Rightarrow> char" where
  "digit_char d = char_of (48 + d)"

definition isValidConsecutive :: "string \<Rightarrow> bool" where
  "isValidConsecutive code =
     (if length code < 4 then True
      else list_all (\<lambda>i. \<not> (code ! i = code ! (i + 1) \<and> code ! i = code ! (i + 2) \<and> code ! i = code ! (i + 3)))
             [0..<length code - 3])"

definition isNotAllSame :: "string \<Rightarrow> bool" where
  "isNotAllSame code = (case code of [] \<Rightarrow> False | c0 # _ \<Rightarrow> \<not> list_all (\<lambda>digit. digit = c0) code)"

definition maxAttempts :: nat where
  "maxAttempts = 1000"

function generateValidCode_loop ::
  "nat \<Rightarrow> nat \<Rightarrow> string set \<Rightarrow> random_source \<Rightarrow> nat \<Rightarrow> string option" where
  "generateValidCode_loop attempts len usedCodes rnd pos =
     (if attempts < maxAttempts then
        (let code = map digit_char (drawDigits rnd pos len) in
         if isNotAllSame code \<and> isValidConsecutive code \<and> code \<notin> usedCodes then Some code
         else generateValidCode_loop (attempts + 1) len usedCodes rnd (pos + len))
      else None)"
  by pat_completeness auto
termination
  by (relation "measure (\<lambda>(attempts, len, u, r, p). maxAttempts - attempts)") auto

declare generateValidCode_loop.simps [simp del]

text \<open>
  The fallback calls \<^verbatim>\<open>Date.now()\<close> inside the callback of \<^verbatim>\<open>Array.from\<close>, once for
  every index: \<open>clock i\<close> is the value read for index \<open>i\<close>.
\<close>

definition generateValidCode ::
  "nat \<Rightarrow> string set \<Rightarrow> random_source \<Rightarrow> (nat \<Rightarrow> nat) \<Rightarrow> string" where
  "generateValidCode len usedCodes rnd clock =
     (case generateValidCode_loop 0 len usedCodes rnd 0 of
        Some code \<Rightarrow> code
      | None \<Rightarrow> map (\<lambda>i. digit_char ((i + clock i) mod 10)) [0..<len])"

subsection \<open>The two validity rules, as the specification words them\<close>

definition all_identical :: "'a list \<Rightarrow> bool" where
  "all_identical xs = (\<forall>x\<in>set xs. \<forall>y\<in>set xs. x = y)"

text \<open>\<open>run_at xs i n\<close>: the \<open>n\<close> entries of \<open>xs\<close> from position \<open>i\<close> on are identical.\<close>

definition run_at :: "'a list \<Rightarrow> nat \<Rightarrow> nat \<Rightarrow> bool" where
  "run_at xs i n = (i + n \<le> length xs \<and> (\<forall>k\<in>{0..<n}. xs ! (i + k) = xs ! i))"

definition valid_code :: "'a list \<Rightarrow> bool" where
  "valid_code xs =
     (\<not> all_identical xs \<and> (\<forall>n\<in>{4..length xs}. \<forall>i\<in>{0..length xs}. \<not> run_at xs i n))"


section \<open>Data model of the contest engine\<close>

datatype errcode =
  Unauthenticated | InvalidArgument | NotFound | FailedPrecondition | ResourceExhausted | Internal

datatype https_error = HttpsError (err_code: errcode) (err_message: string) (err_details: "string option")

record auth =
  uid :: string
  token_email :: "string option"

record round =
  r_id :: nat
  roundNumber :: nat
  isActive :: bool
  winnerCount :: nat
  maxWinners :: nat
  startTime :: int
  endTime :: "int option"
  secretCodesGenerated :: bool

record userCode =
  userId :: string
  roundId :: nat
  secretCode :: digits
  isWinner :: bool
  attempts :: nat
  hintPurchases :: nat
  revealedDigits :: "nat list"

record user =
  email :: "string option"
  createdAt :: int
  lastLogin :: int
  currentRoundId :: "nat option"
  isWinnerInCurrentRound :: bool
  hintCount :: nat
  attemptsInCurrentRound :: nat
  selectedCode :: "int list"
  revealedHintDigits :: "nat list"
  walletBalanceUsdt :: rat
  lastGuessAttempt :: "int option"
  lastHintRequest :: "int option"

record winner =
  w_roundId :: nat
  w_userId :: string
  winnerNumber :: nat
  winningTime :: int
  secretCodeAtWin :: digits

datatype payment_status = Pending | Completed | Failed

record payment =
  p_userId :: string
  p_roundId :: nat
  amountUsdt :: rat
  status :: payment_status
  paymentInitiatedAt :: int
  hintProvided :: bool
  requestedDigitIndex :: nat
  transactionId :: "string option"
  paymentConfirmedAt :: "int option"

record store =
  rounds :: "round list"
  users :: "string \<rightharpoonup> user"
  userCodes :: "userCode list"
  winners :: "winner list"
  payments :: "payment list"

definition init_store :: store where
  "init_store = \<lparr>rounds = [], users = Map.empty, userCodes = [], winners = [], payments = []\<rparr>"

section \<open>The transactional store\<close>

text \<open>
  Every cloud function runs its reads and writes inside one transaction. A transaction that
  throws commits nothing: the model gives each operation the store it starts from and
  returns either the error (the store stays as it was) or the store with all writes applied.
  Writes to one document apply in the order they were issued. Transactions are
  serializable, so concurrent calls are the interleavings of whole operations.
\<close>

subsection \<open>Queries\<close>

text \<open>\<^verbatim>\<open>rounds.where('isActive', '==', true).limit(1)\<close>\<close>

definition activeRoundQuery :: "store \<Rightarrow> (nat \<times> round) option" where
  "activeRoundQuery s = find (\<lambda>(i, r). isActive r) (enumerate 0 (rounds s))"

text \<open>\<^verbatim>\<open>rounds.orderBy('roundNumber', 'desc').limit(1)\<close>: a round whose number no other
  exceeds (the oldest such document, should two share the number).\<close>

definition lastRoundQuery :: "store \<Rightarrow> (nat \<times> round) option" where
  "lastRoundQuery s =
     find (\<lambda>(i, r). \<forall>r'\<in>set (rounds s). roundNumber r' \<le> roundNumber r) (enumerate 0 (rounds s))"

text \<open>\<^verbatim>\<open>userCodes.where('userId', '==', u).where('roundId', '==', rid).limit(1)\<close>\<close>

definition userCodeQuery :: "store \<Rightarrow> string \<Rightarrow> nat \<Rightarrow> (nat \<times> userCode) option" where
  "userCodeQuery s u rid =
     find (\<lambda>(i, c). userId c = u \<and> roundId c = rid) (enumerate 0 (userCodes s))"

text \<open>\<^verbatim>\<open>userCodes.where('roundId', '==', rid).where('secretCode', '==', code)\<close>\<close>

definition existingCodeQuery :: "userCode list \<Rightarrow> nat \<Rightarrow> digits \<Rightarrow> userCode list" where
  "existingCodeQuery codes rid code = filter (\<lambda>c. roundId c = rid \<and> secretCode c = code) codes"

subsection \<open>Writes\<close>

definition updateRound :: "nat \<Rightarrow> (round \<Rightarrow> round) \<Rightarrow> store \<Rightarrow> store" where
  "updateRound i f s = s\<lparr>rounds := (rounds s)[i := f (rounds s ! i)]\<rparr>"

definition updateUserCode :: "nat \<Rightarrow> (userCode \<Rightarrow> userCode) \<Rightarrow> store \<Rightarrow> store" where
  "updateUserCode i f s = s\<lparr>userCodes := (userCodes s)[i := f (userCodes s ! i)]\<rparr>"

definition updatePayment :: "nat \<Rightarrow> (payment \<Rightarrow> payment) \<Rightarrow> store \<Rightarrow> store" where
  "updatePayment i f s = s\<lparr>payments := (payments s)[i := f (payments s ! i)]\<rparr>"

text \<open>Every call site has read the user document before it updates it.\<close>

definition updateUser :: "string \<Rightarrow> (user \<Rightarrow> user) \<Rightarrow> store \<Rightarrow> store" where
  "updateUser u f s = (case users s u of None \<Rightarrow> s | Some d \<Rightarrow> s\<lparr>users := (users s)(u \<mapsto> f d)\<rparr>)"

definition endRound :: "nat \<Rightarrow> int \<Rightarrow> store \<Rightarrow> store" where
  "endRound rid now s = updateRound rid (\<lambda>r. r\<lparr>isActive := False, endTime := Some now\<rparr>) s"

section \<open>Cloud functions\<close>

subsection \<open>startRound\<close>

record start_response =
  sr_success :: bool
  sr_roundId :: nat

definition startRound :: "store \<Rightarrow> int \<Rightarrow> store \<times> start_response" where
  "startRound s now =
     (let (newRoundNumber, s1) =
            (case lastRoundQuery s of
               None \<Rightarrow> (1, s)
             | Some (lastRoundId, lastRound) \<Rightarrow>
                 (roundNumber lastRound + 1,
                  updateRound lastRoundId (\<lambda>r. r\<lparr>isActive := False, endTime := Some now\<rparr>) s));
          newRoundId = length (rounds s)
      in (s1\<lparr>rounds := rounds s1 @
               [\<lparr>r_id = newRoundId, roundNumber = newRoundNumber, isActive = True,
                 winnerCount = 0, maxWinners = 10, startTime = now, endTime = None,
                 secretCodesGenerated = False\<rparr>]\<rparr>,
          \<lparr>sr_success = True, sr_roundId = newRoundId\<rparr>))"

subsection \<open>assignSecretCode\<close>

record assign_response =
  ar_success :: bool
  ar_roundId :: nat
  ar_message :: string

text \<open>The loop that draws codes until none of the round's codes equals the candidate.\<close>

partial_function (option) findUniqueCode ::
  "userCode list \<Rightarrow> nat \<Rightarrow> random_source \<Rightarrow> nat \<Rightarrow> digits option" where
  "findUniqueCode codes activeRoundId rnd pos =
     (case generateSecretCode rnd pos of
        None \<Rightarrow> None
      | Some (generatedCode, pos') \<Rightarrow>
          if existingCodeQuery codes activeRoundId generatedCode = [] then Some generatedCode
          else findUniqueCode codes activeRoundId rnd pos')"

declare findUniqueCode.simps [code]

definition unselected :: "int list" where
  "unselected = replicate 7 (- 1)"

text \<open>
  Errors thrown inside the try block, the missing active round among them, reach the caller
  wrapped as \<open>internal\<close> with the original message as details. The outer \<open>None\<close> is a call
  whose generation loops never end.
\<close>

definition assignSecretCode ::
  "store \<Rightarrow> auth option \<Rightarrow> random_source \<Rightarrow> int \<Rightarrow> (https_error + store \<times> assign_response) option" where
  "assignSecretCode s ctx rnd now =
     (case ctx of
        None \<Rightarrow> Some (Inl (HttpsError Unauthenticated ''User must be authenticated.'' None))
      | Some a \<Rightarrow>
     (case activeRoundQuery s of
        None \<Rightarrow> Some (Inl (HttpsError Internal ''Failed to assign secret code.''
                               (Some ''No active round found.'')))
      | Some (activeRoundId, activeRoundDoc) \<Rightarrow>
     (case userCodeQuery s (uid a) activeRoundId of
        Some existing \<Rightarrow>
          Some (Inr (s, \<lparr>ar_success = True, ar_roundId = activeRoundId,
                         ar_message = ''Secret code already exists for the active round.''\<rparr>))
      | None \<Rightarrow>
     (case findUniqueCode (userCodes s) activeRoundId rnd 0 of
        None \<Rightarrow> None
      | Some assignedCode \<Rightarrow>
          let s1 = s\<lparr>userCodes := userCodes s @
                      [\<lparr>userId = uid a, roundId = activeRoundId, secretCode = assignedCode,
                        isWinner = False, attempts = 0, hintPurchases = 0, revealedDigits = []\<rparr>]\<rparr>;
              s2 = (case users s (uid a) of
                      None \<Rightarrow>
                        s1\<lparr>users := (users s1)(uid a \<mapsto>
                          \<lparr>email = token_email a, createdAt = now, lastLogin = now,
                            currentRoundId = Some activeRoundId, isWinnerInCurrentRound = False,
                            hintCount = 0, attemptsInCurrentRound = 0, selectedCode = unselected,
                            revealedHintDigits = [], walletBalanceUsdt = 0,
                            lastGuessAttempt = None, lastHintRequest = None\<rparr>)\<rparr>
                    | Some d \<Rightarrow>
                        updateUser (uid a)
                          (\<lambda>d. d\<lparr>currentRoundId := Some activeRoundId, isWinnerInCurrentRound := False,
                                 hintCount := 0, attemptsInCurrentRound := 0,
                                 selectedCode := unselected, revealedHintDigits := []\<rparr>) s1)
          in Some (Inr (s2, \<lparr>ar_success = True, ar_roundId = activeRoundId,
                             ar_message = ''Secret code assigned for the active round.''\<rparr>))))))"

subsection \<open>submitGuess\<close>

record guess_response =
  gr_success :: bool
  gr_isCorrect :: bool
  gr_isWinner :: bool
  gr_roundEnded :: bool
  gr_winnerNumber :: "nat option"
  gr_message :: string

definition validGuess :: "int list \<Rightarrow> bool" where
  "validGuess guessedCode =
     (length guessedCode = 7 \<and> list_all (\<lambda>num. 0 \<le> num \<and> num \<le> 9) guessedCode)"

definition RATE_LIMIT_WINDOW_MS :: int where
  "RATE_LIMIT_WINDOW_MS = 60 * 1000"

definition MAX_ATTEMPTS_PER_WINDOW :: nat where
  "MAX_ATTEMPTS_PER_WINDOW = 10"

text \<open>The condition of the rate limiter: a last attempt exists and lies inside the window.\<close>

definition withinWindow :: "int option \<Rightarrow> int \<Rightarrow> int \<Rightarrow> bool" where
  "withinWindow lastTime now window = (case lastTime of None \<Rightarrow> False | Some t \<Rightarrow> now - t < window)"

text \<open>The writes issued before the comparison: window reset, attempt counters, time stamp.\<close>

definition chargeAttempt :: "string \<Rightarrow> nat \<Rightarrow> user \<Rightarrow> int \<Rightarrow> int \<Rightarrow> store \<Rightarrow> store" where
  "chargeAttempt u userCodeId userData now ts s =
     (let s1 = (if withinWindow (lastGuessAttempt userData) now RATE_LIMIT_WINDOW_MS then s
                else updateUser u (\<lambda>d. d\<lparr>attemptsInCurrentRound := 0\<rparr>) s);
          s2 = updateUser u (\<lambda>d. d\<lparr>attemptsInCurrentRound := attemptsInCurrentRound d + 1,
                                    lastGuessAttempt := Some ts\<rparr>) s1
      in updateUserCode userCodeId (\<lambda>c. c\<lparr>attempts := attempts c + 1\<rparr>) s2)"

text \<open>The writes of a correct guess; the result also tells whether the round ended.\<close>

definition recordWin ::
  "string \<Rightarrow> nat \<Rightarrow> nat \<Rightarrow> round \<Rightarrow> digits \<Rightarrow> int \<Rightarrow> store \<Rightarrow> store \<times> bool \<times> nat" where
  "recordWin u userCodeId activeRoundId activeRoundData secret ts s =
     (let s1 = updateRound activeRoundId (\<lambda>r. r\<lparr>winnerCount := winnerCount r + 1\<rparr>) s;
          s2 = updateUser u (\<lambda>d. d\<lparr>isWinnerInCurrentRound := True\<rparr>) s1;
          s3 = updateUserCode userCodeId (\<lambda>c. c\<lparr>isWinner := True\<rparr>) s2;
          winnerNo = winnerCount activeRoundData + 1;
          s4 = s3\<lparr>winners := winners s3 @
                  [\<lparr>w_roundId = activeRoundId, w_userId = u, winnerNumber = winnerNo,
                    winningTime = ts, secretCodeAtWin = secret\<rparr>]\<rparr>
      in if winnerNo = maxWinners activeRoundData then
           (updateUser u (\<lambda>d. d\<lparr>currentRoundId := None, isWinnerInCurrentRound := False,
                                  hintCount := 0, attemptsInCurrentRound := 0,
                                  selectedCode := unselected, revealedHintDigits := []\<rparr>)
              (endRound activeRoundId ts s4), True, winnerNo)
         else (s4, False, winnerNo))"

definition submitGuess ::
  "store \<Rightarrow> auth option \<Rightarrow> int list \<Rightarrow> int \<Rightarrow> int \<Rightarrow>
     https_error + store \<times> guess_response" where
  "submitGuess s ctx guessedCode now ts =
     (case ctx of
        None \<Rightarrow> Inl (HttpsError Unauthenticated ''User must be authenticated.'' None)
      | Some a \<Rightarrow>
     if \<not> validGuess guessedCode then
       Inl (HttpsError InvalidArgument
             ''Invalid guessed code format. Must be an array of 7 digits.'' None)
     else
     (case activeRoundQuery s of
        None \<Rightarrow> Inl (HttpsError FailedPrecondition ''No active round found.'' None)
      | Some (activeRoundId, activeRoundData) \<Rightarrow>
     (case users s (uid a) of
        None \<Rightarrow> Inl (HttpsError NotFound ''User data not found.'' None)
      | Some userData \<Rightarrow>
     (case userCodeQuery s (uid a) activeRoundId of
        None \<Rightarrow> Inl (HttpsError FailedPrecondition
                        ''User has no code assigned for the current round.'' None)
      | Some (userCodeId, userCodeData) \<Rightarrow>
     if isWinnerInCurrentRound userData then
       Inl (HttpsError FailedPrecondition ''You have already won in this round.'' None)
     else if isWinner userCodeData then
       Inl (HttpsError FailedPrecondition ''You have already won in this round.'' None)
     else if withinWindow (lastGuessAttempt userData) now RATE_LIMIT_WINDOW_MS
             \<and> attemptsInCurrentRound userData \<ge> MAX_ATTEMPTS_PER_WINDOW then
       Inl (HttpsError ResourceExhausted
             ''Too many guess attempts. Please wait a moment before trying again.'' None)
     else
       let s1 = chargeAttempt (uid a) userCodeId userData now ts s;
           secret = secretCode userCodeData
       in if areCodesEqual guessedCode secret then
            if winnerCount activeRoundData \<ge> maxWinners activeRoundData then
              Inl (HttpsError FailedPrecondition ''Round has already reached maximum winners.'' None)
            else
              (case recordWin (uid a) userCodeId activeRoundId activeRoundData secret ts s1 of
                 (s2, roundEnded, winnerNo) \<Rightarrow>
                   Inr (s2, \<lparr>gr_success = True, gr_isCorrect = True, gr_isWinner = True,
                              gr_roundEnded = roundEnded, gr_winnerNumber = Some winnerNo,
                              gr_message = ''Congratulations! You guessed the code correctly!''\<rparr>))
          else
            Inr (s1, \<lparr>gr_success = True, gr_isCorrect = False, gr_isWinner = False,
                       gr_roundEnded = False, gr_winnerNumber = None,
                       gr_message = ''Incorrect code. Try again!''\<rparr>)))))"

subsection \<open>requestHint\<close>

record hint_response =
  hr_success :: bool
  hr_paymentInitiated :: bool
  hr_message :: string
  hr_amount :: rat

definition HINT_PRICE_USDT :: rat where
  "HINT_PRICE_USDT = 1 / 2"

definition MAX_HINTS_PER_ROUND :: nat where
  "MAX_HINTS_PER_ROUND = 3"

definition HINT_RATE_LIMIT_WINDOW_MS :: int where
  "HINT_RATE_LIMIT_WINDOW_MS = 10 * 1000"

text \<open>
  \<open>r\<close> stands for the random draw: \<^verbatim>\<open>Math.floor(Math.random() * n)\<close> takes the values
  \<open>0 .. n - 1\<close>, which are the values of \<open>r mod n\<close>.
\<close>

definition requestHint ::
  "store \<Rightarrow> auth option \<Rightarrow> nat \<Rightarrow> int \<Rightarrow> int \<Rightarrow> https_error + store \<times> hint_response" where
  "requestHint s ctx r now ts =
     (case ctx of
        None \<Rightarrow> Inl (HttpsError Unauthenticated ''User must be authenticated.'' None)
      | Some a \<Rightarrow>
     (case users s (uid a) of
        None \<Rightarrow> Inl (HttpsError NotFound ''User data not found.'' None)
      | Some userData \<Rightarrow>
     (case activeRoundQuery s of
        None \<Rightarrow> Inl (HttpsError FailedPrecondition ''No active round found.'' None)
      | Some (activeRoundId, activeRoundDoc) \<Rightarrow>
     (case userCodeQuery s (uid a) activeRoundId of
        None \<Rightarrow> Inl (HttpsError FailedPrecondition
                        ''User has no code assigned for the current round.'' None)
      | Some (userCodeId, userCodeData) \<Rightarrow>
     if isWinnerInCurrentRound userData \<or> isWinner userCodeData then
       Inl (HttpsError FailedPrecondition ''You cannot request a hint after winning.'' None)
     else if hintPurchases userCodeData \<ge> MAX_HINTS_PER_ROUND then
       Inl (HttpsError ResourceExhausted
             ''You have reached the maximum number of hints for this round.'' None)
     else if withinWindow (lastHintRequest userData) now HINT_RATE_LIMIT_WINDOW_MS then
       Inl (HttpsError ResourceExhausted
             ''Please wait a moment before requesting another hint.'' None)
     else
       let availableIndices = filter (\<lambda>index. index \<notin> set (revealedDigits userCodeData)) [0..<7]
       in if availableIndices = [] then
            Inl (HttpsError FailedPrecondition
                  ''All digits have already been revealed for your code.'' None)
          else
            let randomIndex = r mod length availableIndices;
                digitIndexToReveal = availableIndices ! randomIndex;
                s1 = updateUser (uid a) (\<lambda>d. d\<lparr>lastHintRequest := Some ts\<rparr>) s;
                s2 = s1\<lparr>payments := payments s1 @
                        [\<lparr>p_userId = uid a, p_roundId = activeRoundId, amountUsdt = HINT_PRICE_USDT,
                          status = Pending, paymentInitiatedAt = ts, hintProvided = False,
                          requestedDigitIndex = digitIndexToReveal, transactionId = None,
                          paymentConfirmedAt = None\<rparr>]\<rparr>
            in Inr (s2, \<lparr>hr_success = True, hr_paymentInitiated = True,
                          hr_message = ''Hint request processed. Awaiting payment confirmation.'',
                          hr_amount = HINT_PRICE_USDT\<rparr>)))))"

subsection \<open>confirmPayment\<close>

record confirm_request =
  cr_paymentId :: "nat option"
  cr_transactionId :: "string option"

datatype http_response = HttpResponse nat string

definition paymentVerifiedExternally :: bool where
  "paymentVerifiedExternally = True"

text \<open>
  The transaction of confirmPayment. \<open>Inl\<close> is a throw inside the transaction, with the
  response the handler has sent before throwing, if any; \<open>Inr\<close> is the store to commit.
  An update of a user document that does not exist fails the commit.
\<close>

definition confirmPayment_tx ::
  "store \<Rightarrow> nat \<Rightarrow> string \<Rightarrow> int \<Rightarrow> http_response option + store" where
  "confirmPayment_tx s paymentId tid now =
     (if \<not> paymentId < length (payments s) then
        Inl (Some (HttpResponse 200 ''Payment record not found internally.''))
      else
        let paymentData = payments s ! paymentId in
        if status paymentData = Completed \<and> hintProvided paymentData then
          Inl (Some (HttpResponse 200 ''Payment already processed.''))
        else if status paymentData \<noteq> Pending then
          Inl (Some (HttpResponse 200 ''Payment is not in pending state.''))
        else if \<not> paymentVerifiedExternally then
          Inl (Some (HttpResponse 400 ''External payment verification failed.''))
        else
          let s1 = updatePayment paymentId
                     (\<lambda>p. p\<lparr>status := Completed, transactionId := Some tid,
                            paymentConfirmedAt := Some now\<rparr>) s;
              u = p_userId paymentData;
              rid = p_roundId paymentData
          in (case userCodeQuery s u rid of
                None \<Rightarrow> Inl (Some (HttpResponse 500 ''Internal Error: User code not found.''))
              | Some (userCodeId, userCodeData) \<Rightarrow>
                  let currentRevealedDigits = revealedDigits userCodeData;
                      requestedIndex = requestedDigitIndex paymentData
                  in if requestedIndex \<ge> 7 then
                       Inl (Some (HttpResponse 500 ''Internal Error: Invalid requested digit index.''))
                     else
                       let newRevealedDigits =
                             (if requestedIndex \<notin> set currentRevealedDigits
                              then sort (currentRevealedDigits @ [requestedIndex])
                              else currentRevealedDigits);
                           s2 = updateUserCode userCodeId
                                  (\<lambda>c. c\<lparr>hintPurchases := hintPurchases c + 1,
                                         revealedDigits := newRevealedDigits\<rparr>) s1
                       in (case users s u of
                             None \<Rightarrow> Inl None
                           | Some d \<Rightarrow>
                               Inr (updatePayment paymentId (\<lambda>p. p\<lparr>hintProvided := True\<rparr>)
                                     (updateUser u
                                        (\<lambda>d. d\<lparr>hintCount := hintCount d + 1,
                                               revealedHintDigits := newRevealedDigits\<rparr>) s2)))))"

text \<open>The handler: exactly one response leaves it on every path.\<close>

definition confirmPayment :: "store \<Rightarrow> confirm_request \<Rightarrow> int \<Rightarrow> store \<times> http_response" where
  "confirmPayment s req now =
     (case (cr_paymentId req, cr_transactionId req) of
        (Some paymentId, Some tid) \<Rightarrow>
          if tid = [] then (s, HttpResponse 400 ''Bad Request: Missing paymentId or transactionId.'')
          else
            (case confirmPayment_tx s paymentId tid now of
               Inr s' \<Rightarrow> (s', HttpResponse 200 ''Payment confirmed and hint provided.'')
             | Inl (Some sent) \<Rightarrow> (s, sent)
             | Inl None \<Rightarrow>
                 (s, HttpResponse 500 ''Internal Server Error processing payment confirmation.''))
      | _ \<Rightarrow> (s, HttpResponse 400 ''Bad Request: Missing paymentId or transactionId.''))"

subsection \<open>finishRound\<close>

definition finishRound :: "store \<Rightarrow> nat option \<Rightarrow> int \<Rightarrow> https_error + store \<times> bool" where
  "finishRound s ridOpt now =
     (case ridOpt of
        None \<Rightarrow> Inl (HttpsError InvalidArgument ''Round ID is required.'' None)
      | Some rid \<Rightarrow>
          if \<not> rid < length (rounds s) then Inl (HttpsError NotFound ''Round not found.'' None)
          else if \<not> isActive (rounds s ! rid) then
            Inl (HttpsError FailedPrecondition ''Round is not active.'' None)
          else Inr (endRound rid now s, True))"

section \<open>Reachable stores\<close>

datatype op =
    StartRound int
  | AssignSecretCode "auth option" random_source int
  | SubmitGuess "auth option" "int list" int int
  | RequestHint "auth option" nat int int
  | ConfirmPayment confirm_request int
  | FinishRound "nat option" int

text \<open>The store an operation leaves behind; a failed call leaves the store as it was.\<close>

fun apply_op :: "store \<Rightarrow> op \<Rightarrow> store" where
  "apply_op s (StartRound now) = fst (startRound s now)"
| "apply_op s (AssignSecretCode ctx rnd now) =
     (case assignSecretCode s ctx rnd now of Some (Inr (s', resp)) \<Rightarrow> s' | _ \<Rightarrow> s)"
| "apply_op s (SubmitGuess ctx guessedCode now ts) =
     (case submitGuess s ctx guessedCode now ts of Inr (s', resp) \<Rightarrow> s' | Inl e \<Rightarrow> s)"
| "apply_op s (RequestHint ctx r now ts) =
     (case requestHint s ctx r now ts of Inr (s', resp) \<Rightarrow> s' | Inl e \<Rightarrow> s)"
| "apply_op s (ConfirmPayment req now) = fst (confirmPayment s req now)"
| "apply_op s (FinishRound rid now) =
     (case finishRound s rid now of Inr (s', resp) \<Rightarrow> s' | Inl e \<Rightarrow> s)"

definition run :: "store \<Rightarrow> op list \<Rightarrow> store" where
  "run s ops = foldl apply_op s ops"

inductive reachable :: "store \<Rightarrow> bool" where
  reachable_init: "reachable init_store"
| reachable_step: "reachable s \<Longrightarrow> reachable (apply_op s opn)"

section \<open>Auxiliary notions for the statements\<close>

text \<open>The two shapes of a successful submitGuess response.\<close>

definition incorrect_response :: guess_response where
  "incorrect_response =
     \<lparr>gr_success = True, gr_isCorrect = False, gr_isWinner = False, gr_roundEnded = False,
      gr_winnerNumber = None, gr_message = ''Incorrect code. Try again!''\<rparr>"

definition correct_response :: "bool \<Rightarrow> nat \<Rightarrow> guess_response" where
  "correct_response ended n =
     \<lparr>gr_success = True, gr_isCorrect = True, gr_isWinner = True, gr_roundEnded = ended,
      gr_winnerNumber = Some n,
      gr_message = ''Congratulations! You guessed the code correctly!''\<rparr>"

text \<open>The ranks recorded for a round, in the order the winners were recorded.\<close>

definition ranks_of :: "store \<Rightarrow> nat \<Rightarrow> nat list" where
  "ranks_of s rid = map winnerNumber (filter (\<lambda>w. w_roundId w = rid) (winners s))"

text \<open>Per round: winner count and quota. Per code record: its round and its secret.\<close>

definition quota_view :: "store \<Rightarrow> (nat \<times> nat) list" where
  "quota_view s = map (\<lambda>r. (winnerCount r, maxWinners r)) (rounds s)"

definition code_keys :: "store \<Rightarrow> (nat \<times> digits) list" where
  "code_keys s = map (\<lambda>c. (roundId c, secretCode c)) (userCodes s)"

text \<open>Every round within its quota of ten.\<close>

definition quota_inv :: "store \<Rightarrow> bool" where
  "quota_inv s = (\<forall>p\<in>set (quota_view s). fst p \<le> snd p \<and> snd p = 10)"

text \<open>Every winner belongs to an existing round, and the ranks of a round are 1, 2, ... up to
  its winner count, in the order they were issued.\<close>

definition ranks_inv :: "store \<Rightarrow> bool" where
  "ranks_inv s =
     ((\<forall>w\<in>set (winners s). w_roundId w < length (rounds s)) \<and>
      (\<forall>rid<length (rounds s). ranks_of s rid = [1..<Suc (fst (quota_view s ! rid))]))"

subsection \<open>A contest with eleven players\<close>

definition player :: "nat \<Rightarrow> auth option" where
  "player i = Some \<lparr>uid = [CHR ''p'', digit_char i], token_email = None\<rparr>"

text \<open>The code the \<open>j\<close>-th draw yields when the random source counts 0, 1, 2, ...\<close>

definition code_of :: "nat \<Rightarrow> digits" where
  "code_of j = map (\<lambda>t. int ((7 * j + t) mod 10)) [0..<7]"

definition eleven_trace :: "op list" where
  "eleven_trace =
     StartRound 0 #
     map (\<lambda>i. AssignSecretCode (player i) (\<lambda>k. k) 0) [0..<10] @
     [AssignSecretCode (player 10) (\<lambda>k. if k = 0 then 1 else k) 0] @
     map (\<lambda>i. SubmitGuess (player i) (code_of i) 1 2) [0..<10] @
     [SubmitGuess (player 10) [1, 1, 2, 3, 4, 5, 6] 1 2]"

text \<open>A round with one player who holds a code.\<close>

definition one_player_trace :: "op list" where
  "one_player_trace = [StartRound 0, AssignSecretCode (player 0) (\<lambda>k. k) 0]"

definition pa :: auth where
  "pa = \<lparr>uid = ''a'', token_email = None\<rparr>"

text \<open>A store, not a reachable one, whose active round is already at its quota.\<close>

definition full_round_store :: store where
  "full_round_store =
     \<lparr>rounds = [\<lparr>r_id = 0, roundNumber = 1, isActive = True, winnerCount = 10, maxWinners = 10,
                 startTime = 0, endTime = None, secretCodesGenerated = False\<rparr>],
      users = [''a'' \<mapsto>
                 \<lparr>email = None, createdAt = 0, lastLogin = 0, currentRoundId = Some 0,
                  isWinnerInCurrentRound = False, hintCount = 0, attemptsInCurrentRound = 2,
                  selectedCode = unselected, revealedHintDigits = [], walletBalanceUsdt = 0,
                  lastGuessAttempt = Some 1000, lastHintRequest = None\<rparr>],
      userCodes = [\<lparr>userId = ''a'', roundId = 0, secretCode = [0, 1, 2, 3, 4, 5, 6],
                    isWinner = False, attempts = 2, hintPurchases = 0, revealedDigits = []\<rparr>],
      winners = [], payments = []\<rparr>"

subsection \<open>A player who requests four hints before any of them is paid\<close>

definition confirm :: "nat \<Rightarrow> confirm_request" where
  "confirm paymentId = \<lparr>cr_paymentId = Some paymentId, cr_transactionId = Some ''tx''\<rparr>"

definition one_hint_trace :: "op list" where
  "one_hint_trace = one_player_trace @ [RequestHint (player 0) 0 0 1]"


text \<open>A payment request that has been confirmed and whose hint has been given.\<close>

definition processed :: "store \<Rightarrow> nat \<Rightarrow> bool" where
  "processed s paymentId =
     (paymentId < length (payments s) \<and> status (payments s ! paymentId) = Completed \<and>
      hintProvided (payments s ! paymentId))"

subsection \<open>Sequences of guesses of one player\<close>

text \<open>A guess with the two clock readings of its call: handler's clock, server timestamp.\<close>

type_synonym timed_guess = "int list \<times> int \<times> int"

fun submit_all :: "store \<Rightarrow> auth option \<Rightarrow> timed_guess list \<Rightarrow> store" where
  "submit_all s ctx [] = s"
| "submit_all s ctx ((g, now, ts) # rest) = submit_all (apply_op s (SubmitGuess ctx g now ts)) ctx rest"

fun all_commit :: "store \<Rightarrow> auth option \<Rightarrow> timed_guess list \<Rightarrow> bool" where
  "all_commit s ctx [] = True"
| "all_commit s ctx ((g, now, ts) # rest) =
     (case submitGuess s ctx g now ts of Inl e \<Rightarrow> False | Inr (s', resp) \<Rightarrow> all_commit s' ctx rest)"

text \<open>Every call is made less than a window after the time stamp of the call before it.\<close>

fun spaced_within_window :: "int \<Rightarrow> timed_guess list \<Rightarrow> bool" where
  "spaced_within_window t [] = True"
| "spaced_within_window t ((g, now, ts) # rest) =
     (now - t < RATE_LIMIT_WINDOW_MS \<and> spaced_within_window ts rest)"

fun last_stamp :: "int \<Rightarrow> timed_guess list \<Rightarrow> int" where
  "last_stamp t [] = t"
| "last_stamp t ((g, now, ts) # rest) = last_stamp ts rest"

definition wrong_guesses :: "digits \<Rightarrow> timed_guess list \<Rightarrow> bool" where
  "wrong_guesses secret gs = list_all (\<lambda>(g, now, ts). validGuess g \<and> \<not> areCodesEqual g secret) gs"

text \<open>The part of the store the rate limiter depends on, for one player in the active round.\<close>

definition limiter_state ::
  "auth \<Rightarrow> nat \<Rightarrow> digits \<Rightarrow> store \<Rightarrow> nat \<Rightarrow> int option \<Rightarrow> bool" where
  "limiter_state a cid secret s k lastTime =
     (\<exists>rid rd ud cd.
        activeRoundQuery s = Some (rid, rd) \<and> users s (uid a) = Some ud \<and>
        userCodeQuery s (uid a) rid = Some (cid, cd) \<and>
        \<not> isWinnerInCurrentRound ud \<and> \<not> isWinner cd \<and> secretCode cd = secret \<and>
        attemptsInCurrentRound ud = k \<and> lastGuessAttempt ud = lastTime)"

definition too_many_attempts :: https_error where
  "too_many_attempts =
     HttpsError ResourceExhausted
       ''Too many guess attempts. Please wait a moment before trying again.'' None"

definition wrong :: "int list" where
  "wrong = [1, 1, 1, 1, 1, 1, 1]"

text \<open>Ten wrong guesses, five seconds apart, the first one at 1000.\<close>

definition ten_guesses :: "timed_guess list" where
  "ten_guesses = map (\<lambda>i. (wrong, 1000 + 5000 * int i, 1001 + 5000 * int i)) [0..<10]"

definition p0 :: auth where
  "p0 = \<lparr>uid = ''p0'', token_email = None\<rparr>"

subsection \<open>Stores that differ only in the stored secret codes\<close>

definition hide :: "userCode \<Rightarrow> userCode" where
  "hide c = c\<lparr>secretCode := []\<rparr>"

definition hide_win :: "winner \<Rightarrow> winner" where
  "hide_win w = w\<lparr>secretCodeAtWin := []\<rparr>"

definition same_public :: "store \<Rightarrow> store \<Rightarrow> bool" where
  "same_public s1 s2 =
     (rounds s1 = rounds s2 \<and> users s1 = users s2 \<and> payments s1 = payments s2 \<and>
      map hide (userCodes s1) = map hide (userCodes s2) \<and>
      map hide_win (winners s1) = map hide_win (winners s2))"

text \<open>What the caller receives: the error thrown or the response payload.\<close>

definition payload :: "'e + store \<times> 'r \<Rightarrow> 'e + 'r" where
  "payload r = map_sum id snd r"

text \<open>The store after \<open>one_player_trace\<close>, with another secret for the player.\<close>

definition other_secret_store :: store where
  "other_secret_store =
     updateUserCode 0 (\<lambda>c. c\<lparr>secretCode := [9, 8, 7, 6, 5, 4, 3]\<rparr>) (run init_store one_player_trace)"

section \<open>The generators respect the two validity rules\<close>

lemma card_set_one: "xs \<noteq> [] \<Longrightarrow> all_identical xs \<Longrightarrow> card (set xs) = 1"
proof -
  assume ne: "xs \<noteq> []" and a: "all_identical xs"
  from ne have h: "hd xs \<in> set xs" by (rule hd_in_set)
  with a have "set xs \<subseteq> {hd xs}" unfolding all_identical_def by blast
  with h have "set xs = {hd xs}" by blast
  then show ?thesis by simp
qed

lemma digit_char_inj: "a < 10 \<Longrightarrow> b < 10 \<Longrightarrow> digit_char a = digit_char b \<Longrightarrow> a = b"
  by (simp add: digit_char_def char_of_eq_iff take_bit_eq_mod)

lemma run_at_4: "n \<ge> 4 \<Longrightarrow> run_at xs i n \<Longrightarrow> run_at xs i 4"
  by (auto simp: run_at_def)

lemma ball_upt4: "(\<forall>k\<in>{0..<4::nat}. P k) = (P 0 \<and> P 1 \<and> P 2 \<and> P 3)"
proof -
  have e: "{0..<4::nat} = {0, 1, 2, 3}" by auto
  show ?thesis unfolding e by blast
qed

lemma run_at_4_iff:
  "run_at xs i 4 = (i + 4 \<le> length xs \<and> xs ! i = xs ! (i + 1) \<and> xs ! i = xs ! (i + 2) \<and> xs ! i = xs ! (i + 3))"
  unfolding run_at_def ball_upt4 by (simp only: add_0_right) metis

lemma isNotAllSame_sound: "isNotAllSame code \<Longrightarrow> \<not> all_identical code"
  by (cases code) (auto simp: isNotAllSame_def all_identical_def list_all_iff)

lemma isValidConsecutive_sound: "isValidConsecutive code \<Longrightarrow> \<not> run_at code i 4"
proof
  assume v: "isValidConsecutive code" and r: "run_at code i 4"
  from r have len: "i + 4 \<le> length code" unfolding run_at_4_iff by blast
  then have mem: "i \<in> set [0..<length code - 3]" by simp
  from len have "\<not> length code < 4" by simp
  with v have "list_all (\<lambda>i. \<not> (code ! i = code ! (i + 1) \<and> code ! i = code ! (i + 2) \<and> code ! i = code ! (i + 3)))
             [0..<length code - 3]"
    unfolding isValidConsecutive_def by (simp only: if_False)
  with mem have "\<not> (code ! i = code ! (i + 1) \<and> code ! i = code ! (i + 2) \<and> code ! i = code ! (i + 3))"
    unfolding list_all_iff by blast
  moreover from r have "code ! i = code ! (i + 1) \<and> code ! i = code ! (i + 2) \<and> code ! i = code ! (i + 3)"
    unfolding run_at_4_iff by blast
  ultimately show False by blast
qed

lemma valid_codeI: "\<not> all_identical xs \<Longrightarrow> (\<And>j. \<not> run_at xs j 4) \<Longrightarrow> valid_code xs"
  unfolding valid_code_def
proof (intro conjI ballI)
  fix n i assume no: "\<And>j. \<not> run_at xs j 4" and "n \<in> {4..length xs}"
  then have n: "4 \<le> n" by simp
  show "\<not> run_at xs i n"
  proof
    assume "run_at xs i n"
    with n have "run_at xs i 4" by (rule run_at_4)
    with no show False by blast
  qed
qed

lemma run_at_shrink: "run_at xs m (Suc n) \<Longrightarrow> run_at xs m n"
  by (simp add: run_at_def)

lemma run_at_last: "run_at xs m (Suc (Suc n)) \<Longrightarrow> xs ! (m + n) = xs ! (m + n + 1)"
proof -
  assume "run_at xs m (Suc (Suc n))"
  then have a: "\<forall>k\<in>{0..<Suc (Suc n)}. xs ! (m + k) = xs ! m" by (simp add: run_at_def)
  have "xs ! (m + n) = xs ! m" using a by simp
  moreover have "xs ! (m + Suc n) = xs ! m" using a by (meson atLeastLessThan_iff le0 lessI)
  ultimately show ?thesis by simp
qed

lemma rule2_loop_sound:
  "rule2_loop code i c \<Longrightarrow> i \<le> length code \<Longrightarrow>
   (\<forall>m n. m + n = i \<and> run_at code m n \<longrightarrow> n \<le> c) \<Longrightarrow>
   (\<forall>j. j + 4 \<le> i \<longrightarrow> \<not> run_at code j 4) \<Longrightarrow>
   \<not> run_at code j 4"
proof (induction code i c arbitrary: j rule: rule2_loop.induct)
  case (1 code i c)
  show ?case
  proof (cases "i < length code")
    case False
    with "1.prems"(2,4) show ?thesis by (auto simp: run_at_def)
  next
    case True
    define c' where "c' = (if i > 0 \<and> code ! i = code ! (i - 1) then c + 1 else 1)"
    from "1.prems"(1) True have le3: "\<not> c' > 3" and rec: "rule2_loop code (i + 1) c'"
      by (auto simp: rule2_loop.simps[of code i c] c'_def Let_def split: if_splits)
    have J: "\<forall>m n. m + n = i + 1 \<and> run_at code m n \<longrightarrow> n \<le> c'"
    proof (intro allI impI, elim conjE)
      fix m n assume mn: "m + n = i + 1" and r: "run_at code m n"
      show "n \<le> c'"
      proof (cases "n \<le> 1")
        case True then show ?thesis by (auto simp: c'_def)
      next
        case False
        then obtain n' where n': "n = Suc (Suc n')"
          by (cases n; cases "n - 1") auto
        from mn n' have i: "i = m + n' + 1" by simp
        from r n' have "code ! (m + n') = code ! (m + n' + 1)" by (simp add: run_at_last)
        with i have e: "i > 0 \<and> code ! i = code ! (i - 1)" by simp
        from r n' have "run_at code m (Suc n')" by (simp add: run_at_shrink)
        moreover have "m + Suc n' = i" using i by simp
        ultimately have "Suc n' \<le> c" using "1.prems"(3) by blast
        then show ?thesis using e n' by (simp add: c'_def)
      qed
    qed
    have K: "\<forall>j. j + 4 \<le> i + 1 \<longrightarrow> \<not> run_at code j 4"
    proof (intro allI impI)
      fix j assume j: "j + 4 \<le> i + 1"
      show "\<not> run_at code j 4"
      proof (cases "j + 4 \<le> i")
        case True with "1.prems"(4) show ?thesis by blast
      next
        case False
        with j have ji: "j + 4 = i + 1" by simp
        show ?thesis
        proof
          assume "run_at code j 4"
          with J ji have "4 \<le> c'" by blast
          with le3 show False by simp
        qed
      qed
    qed
    from True have "i + 1 \<le> length code" by simp
    from "1.IH"[OF True c'_def le3 rec this J K] show ?thesis .
  qed
qed

lemma generateSecretCode_valid:
  assumes "generateSecretCode rnd pos = Some r"
  shows "length (fst r) = 7 \<and> valid_code (fst r)"
proof (rule generateSecretCode.raw_induct
    [where P = "\<lambda>rnd pos r. length (fst r) = 7 \<and> valid_code (fst r)", OF _ assms])
  fix gen :: "random_source \<Rightarrow> nat \<Rightarrow> (digits \<times> nat) option" and rnd pos r
  assume IH: "\<And>rnd pos r. gen rnd pos = Some r \<Longrightarrow> length (fst r) = 7 \<and> valid_code (fst r)"
  assume body: "(let code = map int (drawDigits rnd pos 7) in
      if card (set code) = 1 then gen rnd (pos + 7)
      else if \<not> rule2_loop code 0 0 then gen rnd (pos + 7)
      else Some (code, pos + 7)) = Some r"
  define cd where "cd = map int (drawDigits rnd pos 7)"
  show "length (fst r) = 7 \<and> valid_code (fst r)"
  proof (cases "card (set cd) = 1 \<or> \<not> rule2_loop cd 0 0")
    case True
    with body have "gen rnd (pos + 7) = Some r"
      by (auto simp: cd_def Let_def split: if_splits)
    then show ?thesis by (rule IH)
  next
    case False
    with body have c: "fst r = cd"
      by (auto simp: cd_def Let_def split: if_splits)
    have len: "length cd = 7" by (simp add: cd_def drawDigits_def)
    then have ne: "cd \<noteq> []" by auto
    from False have "\<not> all_identical cd" using card_set_one[OF ne] by blast
    moreover have "\<not> run_at cd j 4" for j
    proof -
      from False have "rule2_loop cd 0 0" by simp
      then show ?thesis by (rule rule2_loop_sound) simp_all
    qed
    ultimately show ?thesis using len c by (simp add: valid_codeI)
  qed
qed

text \<open>With one clock value for all seven indices the fallback sequence is valid.\<close>

lemma fallback_valid_fixed_clock:
  "valid_code (map (\<lambda>i. digit_char ((i + now) mod 10)) [0..<7])"
proof (rule valid_codeI)
  let ?xs = "map (\<lambda>i. digit_char ((i + now) mod 10)) [0..<7]"
  have d: "?xs ! j \<noteq> ?xs ! (j + 1)" if "j + 1 < 7" for j
  proof
    assume "?xs ! j = ?xs ! (j + 1)"
    with that have "digit_char ((j + now) mod 10) = digit_char ((j + 1 + now) mod 10)"
      by simp
    then have "(j + now) mod 10 = (j + 1 + now) mod 10"
      by (rule digit_char_inj[rotated 2]) simp_all
    then have "(j + now) mod 10 = Suc (j + now) mod 10" by simp
    then show False by (simp add: mod_Suc split: if_splits)
  qed
  show "\<not> all_identical ?xs"
  proof
    assume "all_identical ?xs"
    moreover have "?xs ! 0 \<in> set ?xs" and "?xs ! (0 + 1) \<in> set ?xs"
      by (rule nth_mem, simp)+
    ultimately have "?xs ! 0 = ?xs ! (0 + 1)"
      unfolding all_identical_def by blast
    with d[of 0] show False by simp
  qed
  show "\<not> run_at ?xs j 4" for j
  proof
    assume "run_at ?xs j 4"
    then have "j + 4 \<le> 7" and "?xs ! j = ?xs ! (j + 1)" by (auto simp: run_at_4_iff)
    with d[of j] show False by simp
  qed
qed

lemma generateValidCode_loop_valid:
  "generateValidCode_loop a len used rnd pos = Some code \<Longrightarrow> length code = len \<and> valid_code code"
proof (induction a len used rnd pos rule: generateValidCode_loop.induct)
  case (1 attempts len usedCodes rnd pos)
  define cd where "cd = map digit_char (drawDigits rnd pos len)"
  note unfold = generateValidCode_loop.simps[of attempts len usedCodes rnd pos]
  from "1.prems" have lt: "attempts < maxAttempts"
    by (subst (asm) unfold) (simp split: if_splits)
  have eq: "generateValidCode_loop attempts len usedCodes rnd pos =
      (if isNotAllSame cd \<and> isValidConsecutive cd \<and> cd \<notin> usedCodes then Some cd
       else generateValidCode_loop (attempts + 1) len usedCodes rnd (pos + len))"
    using lt by (subst unfold) (simp add: cd_def Let_def)
  show ?case
  proof (cases "isNotAllSame cd \<and> isValidConsecutive cd \<and> cd \<notin> usedCodes")
    case True
    then have "generateValidCode_loop attempts len usedCodes rnd pos = Some cd"
      unfolding eq by (rule if_P)
    with "1.prems" have "code = cd" by simp
    moreover have "length cd = len" by (simp add: cd_def drawDigits_def)
    moreover have "valid_code cd"
      using True by (intro valid_codeI isNotAllSame_sound isValidConsecutive_sound) simp_all
    ultimately show ?thesis by simp
  next
    case False
    then have "generateValidCode_loop attempts len usedCodes rnd pos =
        generateValidCode_loop (attempts + 1) len usedCodes rnd (pos + len)"
      unfolding eq by (rule if_not_P)
    with "1.prems"
    have r: "generateValidCode_loop (attempts + 1) len usedCodes rnd (pos + len) = Some code"
      by simp
    show ?thesis
      by (rule "1.IH"[OF lt cd_def False r])
  qed
qed


lemma not_isNotAllSame_const: "(\<And>x. f x = c) \<Longrightarrow> \<not> isNotAllSame (map f xs)"
  by (cases xs) (simp_all add: isNotAllSame_def list_all_iff)

lemma generateValidCode_loop_zero:
  "len = 7 \<Longrightarrow> rnd = (\<lambda>k. 0) \<Longrightarrow> generateValidCode_loop a len used rnd pos = None"
proof (induction a len used rnd pos rule: generateValidCode_loop.induct)
  case (1 a len usedCodes rnd pos)
  have n: "\<not> isNotAllSame (map digit_char (drawDigits rnd pos len))"
    unfolding drawDigits_def map_map
    by (rule not_isNotAllSame_const[where c = "digit_char 0"]) (simp add: "1.prems")
  show ?case
  proof (cases "a < maxAttempts")
    case True
    from "1.IH"[OF True refl _ "1.prems"] n
    have "generateValidCode_loop (a + 1) len usedCodes rnd (pos + len) = None" by blast
    with True n show ?thesis
      by (subst generateValidCode_loop.simps) (simp add: Let_def)
  next
    case False
    then show ?thesis by (subst generateValidCode_loop.simps) simp
  qed
qed

lemma generateValidCode_valid_fixed_clock:
  "length (generateValidCode 7 used rnd (\<lambda>i. now)) = 7 \<and>
   valid_code (generateValidCode 7 used rnd (\<lambda>i. now))"
proof
  show "length (generateValidCode 7 used rnd (\<lambda>i. now)) = 7"
    using generateValidCode_loop_valid[of 0 7 used rnd 0]
    by (cases "generateValidCode_loop 0 7 used rnd 0") (simp_all add: generateValidCode_def)
  show "valid_code (generateValidCode 7 used rnd (\<lambda>i. now))"
    using generateValidCode_loop_valid[of 0 7 used rnd 0] fallback_valid_fixed_clock[of now]
    by (cases "generateValidCode_loop 0 7 used rnd 0") (simp_all only: generateValidCode_def option.case)
qed

text \<open>
  C7. The server's generator returns only codes of seven digits that satisfy both rules, and
  so does the retry loop of the client's generator. The client's fallback does not: it reads
  the clock once per index, and when the retries are exhausted and the seven readings are
  5, 14, 23, 32, 41, 50, 59 the code returned is 5555555, which fails both of the
  generator's own checks.
\<close>

theorem fallback_returns_invalid_code:
  "generateValidCode 7 {} (\<lambda>k. 0) (\<lambda>i. 5 + 9 * i) = ''5555555'' \<and>
   \<not> isNotAllSame ''5555555'' \<and> \<not> isValidConsecutive ''5555555''"
proof -
  have "map (\<lambda>i. digit_char ((i + (5 + 9 * i)) mod 10)) [0..<7] = ''5555555''"
    by (simp add: digit_char_def upt_rec, code_simp)
  then have "generateValidCode 7 {} (\<lambda>k. 0) (\<lambda>i. 5 + 9 * i) = ''5555555''"
    by (simp only: generateValidCode_def generateValidCode_loop_zero[OF refl refl] option.case)
  moreover have "\<not> isNotAllSame ''5555555''" by code_simp
  moreover have "\<not> isValidConsecutive ''5555555''" by code_simp
  ultimately show ?thesis by simp
qed

lemma all_fives_invalid: "\<not> valid_code ''5555555''"
  by (simp add: valid_code_def all_identical_def)

section \<open>Queries and writes: basic facts\<close>

lemma find_enumerate_Some:
  assumes "find P (enumerate 0 xs) = Some (i, x)"
  shows "i < length xs \<and> xs ! i = x \<and> P (i, x)"
proof -
  from assms have "(i, x) \<in> set (enumerate 0 xs)" and "P (i, x)"
    by (auto simp: find_Some_iff in_set_conv_nth)
  then show ?thesis by (simp add: in_set_enumerate_eq)
qed

lemma find_enumerate_None:
  assumes "find P (enumerate 0 xs) = None" and "i < length xs"
  shows "\<not> P (i, xs ! i)"
proof -
  from assms(2) have "(i, xs ! i) \<in> set (enumerate 0 xs)"
    by (simp add: in_set_enumerate_eq)
  with assms(1) show ?thesis by (auto simp: find_None_iff)
qed

lemma find_enumerate_first:
  assumes "find P (enumerate 0 xs) = Some (i, x)" and "j < i"
  shows "\<not> P (j, xs ! j)"
proof -
  from assms(1) obtain k where k: "k < length (enumerate 0 xs)" "(i, x) = enumerate 0 xs ! k"
      "\<forall>j<k. \<not> P (enumerate 0 xs ! j)"
    by (auto simp: find_Some_iff)
  then have "k = i" by (simp add: nth_enumerate_eq)
  with k assms(2) have "\<not> P (enumerate 0 xs ! j)" and "j < length xs" by auto
  then show ?thesis by (simp add: nth_enumerate_eq)
qed

lemma activeRoundQuery_Some:
  "activeRoundQuery s = Some (i, r) \<Longrightarrow> i < length (rounds s) \<and> rounds s ! i = r \<and> isActive r"
  unfolding activeRoundQuery_def by (drule find_enumerate_Some) simp

lemma userCodeQuery_Some:
  "userCodeQuery s u rid = Some (i, c) \<Longrightarrow>
     i < length (userCodes s) \<and> userCodes s ! i = c \<and> userId c = u \<and> roundId c = rid"
  unfolding userCodeQuery_def by (drule find_enumerate_Some) simp

lemma lastRoundQuery_Some:
  "lastRoundQuery s = Some (i, r) \<Longrightarrow>
     i < length (rounds s) \<and> rounds s ! i = r \<and> (\<forall>r'\<in>set (rounds s). roundNumber r' \<le> roundNumber r)"
  unfolding lastRoundQuery_def by (drule find_enumerate_Some) simp

lemma ex_max_elem: "xs \<noteq> [] \<Longrightarrow> \<exists>x\<in>set xs. \<forall>y\<in>set xs. f y \<le> (f x :: nat)"
proof (induction xs)
  case Nil
  then show ?case by simp
next
  case (Cons a xs)
  show ?case
  proof (cases "xs = []")
    case True
    then show ?thesis by simp
  next
    case False
    with Cons.IH obtain m where m: "m \<in> set xs" "\<forall>y\<in>set xs. f y \<le> f m" by blast
    show ?thesis
    proof (cases "f a \<le> f m")
      case True
      with m show ?thesis by auto
    next
      case False
      then have "\<forall>y\<in>set xs. f y \<le> f a" using m(2) by (meson le_trans nat_le_linear)
      then show ?thesis by auto
    qed
  qed
qed

lemma lastRoundQuery_None: "lastRoundQuery s = None \<Longrightarrow> rounds s = []"
proof (rule ccontr)
  assume n: "lastRoundQuery s = None" and ne: "rounds s \<noteq> []"
  from ex_max_elem[OF ne, of roundNumber] obtain m where
    m: "m \<in> set (rounds s)" "\<forall>y\<in>set (rounds s). roundNumber y \<le> roundNumber m" by blast
  from m(1) obtain i where i: "i < length (rounds s)" "rounds s ! i = m"
    by (auto simp: in_set_conv_nth)
  from find_enumerate_None[OF n[unfolded lastRoundQuery_def] i(1)] i(2) m(2)
  show False by simp
qed

lemma updateUser_fields [simp]:
  "rounds (updateUser u f s) = rounds s"
  "userCodes (updateUser u f s) = userCodes s"
  "winners (updateUser u f s) = winners s"
  "payments (updateUser u f s) = payments s"
  by (simp_all add: updateUser_def split: option.splits)

lemma updateUser_users:
  "users (updateUser u f s) = (case users s u of None \<Rightarrow> users s | Some d \<Rightarrow> (users s)(u \<mapsto> f d))"
  by (simp add: updateUser_def split: option.splits)

lemma updateRound_fields [simp]:
  "rounds (updateRound i f s) = (rounds s)[i := f (rounds s ! i)]"
  "users (updateRound i f s) = users s"
  "userCodes (updateRound i f s) = userCodes s"
  "winners (updateRound i f s) = winners s"
  "payments (updateRound i f s) = payments s"
  by (simp_all add: updateRound_def)

lemma updateUserCode_fields [simp]:
  "rounds (updateUserCode i f s) = rounds s"
  "users (updateUserCode i f s) = users s"
  "userCodes (updateUserCode i f s) = (userCodes s)[i := f (userCodes s ! i)]"
  "winners (updateUserCode i f s) = winners s"
  "payments (updateUserCode i f s) = payments s"
  by (simp_all add: updateUserCode_def)

lemma updatePayment_fields [simp]:
  "rounds (updatePayment i f s) = rounds s"
  "users (updatePayment i f s) = users s"
  "userCodes (updatePayment i f s) = userCodes s"
  "winners (updatePayment i f s) = winners s"
  "payments (updatePayment i f s) = (payments s)[i := f (payments s ! i)]"
  by (simp_all add: updatePayment_def)

lemma endRound_fields [simp]:
  "rounds (endRound i now s) = (rounds s)[i := (rounds s ! i)\<lparr>isActive := False, endTime := Some now\<rparr>]"
  "users (endRound i now s) = users s"
  "userCodes (endRound i now s) = userCodes s"
  "winners (endRound i now s) = winners s"
  "payments (endRound i now s) = payments s"
  by (simp_all add: endRound_def)

section \<open>startRound and the previous round\<close>

lemma startRound_rounds:
  "rounds (fst (startRound s now)) =
     (case lastRoundQuery s of
        None \<Rightarrow> [\<lparr>r_id = 0, roundNumber = 1, isActive = True, winnerCount = 0, maxWinners = 10,
                    startTime = now, endTime = None, secretCodesGenerated = False\<rparr>]
      | Some (i, r) \<Rightarrow>
          (rounds s)[i := r\<lparr>isActive := False, endTime := Some now\<rparr>] @
          [\<lparr>r_id = length (rounds s), roundNumber = roundNumber r + 1, isActive = True,
            winnerCount = 0, maxWinners = 10, startTime = now, endTime = None,
            secretCodesGenerated = False\<rparr>])"
proof (cases "lastRoundQuery s")
  case None
  then show ?thesis by (simp add: startRound_def Let_def lastRoundQuery_None)
next
  case (Some p)
  obtain i r where p: "p = (i, r)" by (cases p)
  with Some lastRoundQuery_Some[of s i r] show ?thesis
    by (simp add: startRound_def Let_def)
qed

lemma startRound_frame:
  "users (fst (startRound s now)) = users s"
  "userCodes (fst (startRound s now)) = userCodes s"
  "winners (fst (startRound s now)) = winners s"
  "payments (fst (startRound s now)) = payments s"
  by (simp_all add: startRound_def Let_def split: option.splits prod.splits)

text \<open>
  C10. When at least one round exists, startRound picks a round whose roundNumber no other
  round exceeds and, whatever that round's state was, leaves it with isActive = false and
  endTime = the fresh timestamp: an end time recorded before is replaced.
\<close>

theorem startRound_overwrites_last_round:
  "(rounds s \<noteq> [] \<longrightarrow> (\<exists>i r. lastRoundQuery s = Some (i, r))) \<and>
   (lastRoundQuery s = Some (i, r) \<longrightarrow>
      i < length (rounds s) \<and> rounds s ! i = r \<and>
      (\<forall>r'\<in>set (rounds s). roundNumber r' \<le> roundNumber r) \<and>
      rounds (fst (startRound s now)) ! i = r\<lparr>isActive := False, endTime := Some now\<rparr>)"
proof (intro conjI impI)
  assume "rounds s \<noteq> []"
  then show "\<exists>i r. lastRoundQuery s = Some (i, r)"
    using lastRoundQuery_None[of s] by (cases "lastRoundQuery s") auto
next
  assume l: "lastRoundQuery s = Some (i, r)"
  from lastRoundQuery_Some[OF l]
  show "i < length (rounds s)" and "rounds s ! i = r"
    and "\<forall>r'\<in>set (rounds s). roundNumber r' \<le> roundNumber r" by simp_all
  then show "rounds (fst (startRound s now)) ! i = r\<lparr>isActive := False, endTime := Some now\<rparr>"
    using l by (simp add: startRound_rounds nth_append)
qed

theorem startRound_overwrites_last_round_witness:
  "rounds (run init_store [StartRound 0, FinishRound (Some 0) 5]) \<noteq> [] \<and>
   lastRoundQuery (run init_store [StartRound 0, FinishRound (Some 0) 5]) =
     Some (0, \<lparr>r_id = 0, roundNumber = 1, isActive = False, winnerCount = 0, maxWinners = 10,
               startTime = 0, endTime = Some 5, secretCodesGenerated = False\<rparr>) \<and>
   rounds (fst (startRound (run init_store [StartRound 0, FinishRound (Some 0) 5]) 9)) ! 0 =
     \<lparr>r_id = 0, roundNumber = 1, isActive = False, winnerCount = 0, maxWinners = 10,
      startTime = 0, endTime = Some 9, secretCodesGenerated = False\<rparr>"
proof -
  let ?s = "run init_store [StartRound 0, FinishRound (Some 0) 5]"
  let ?r = "\<lparr>r_id = 0, roundNumber = 1, isActive = False, winnerCount = 0, maxWinners = 10,
             startTime = 0, endTime = Some 5, secretCodesGenerated = False\<rparr>"
  have ne: "rounds ?s \<noteq> []" by code_simp
  have l: "lastRoundQuery ?s = Some (0, ?r)" by code_simp
  from startRound_overwrites_last_round[of ?s 0 ?r 9] l ne show ?thesis by simp
qed

section \<open>What each operation writes\<close>

lemma map_list_update_same: "f y = f (xs ! i) \<Longrightarrow> map f (xs[i := y]) = map f xs"
  by (cases "i < length xs") (auto simp: list_eq_iff_nth_eq nth_list_update)

lemma chargeAttempt_fields [simp]:
  "rounds (chargeAttempt u cid ud now ts s) = rounds s"
  "userCodes (chargeAttempt u cid ud now ts s) =
     (userCodes s)[cid := (userCodes s ! cid)\<lparr>attempts := attempts (userCodes s ! cid) + 1\<rparr>]"
  "winners (chargeAttempt u cid ud now ts s) = winners s"
  "payments (chargeAttempt u cid ud now ts s) = payments s"
  by (simp_all add: chargeAttempt_def Let_def)

lemma chargeAttempt_users:
  "users s u = Some d \<Longrightarrow>
   users (chargeAttempt u cid ud now ts s) =
     (users s)(u \<mapsto> d\<lparr>attemptsInCurrentRound :=
                        (if withinWindow (lastGuessAttempt ud) now RATE_LIMIT_WINDOW_MS
                         then attemptsInCurrentRound d else 0) + 1,
                      lastGuessAttempt := Some ts\<rparr>)"
  by (simp add: chargeAttempt_def Let_def updateUser_def)

lemma recordWin_rounds [simp]:
  "rounds (fst (recordWin u cid rid rd secret ts s)) =
     (rounds s)[rid := (if winnerCount rd + 1 = maxWinners rd
                        then (rounds s ! rid)\<lparr>winnerCount := winnerCount (rounds s ! rid) + 1,
                                                isActive := False, endTime := Some ts\<rparr>
                        else (rounds s ! rid)\<lparr>winnerCount := winnerCount (rounds s ! rid) + 1\<rparr>)]"
  by (cases "rid < length (rounds s)") (simp_all add: recordWin_def Let_def list_update_beyond not_less)

lemma recordWin_fields [simp]:
  "userCodes (fst (recordWin u cid rid rd secret ts s)) =
     (userCodes s)[cid := (userCodes s ! cid)\<lparr>isWinner := True\<rparr>]"
  "winners (fst (recordWin u cid rid rd secret ts s)) =
     winners s @ [\<lparr>w_roundId = rid, w_userId = u, winnerNumber = winnerCount rd + 1,
                   winningTime = ts, secretCodeAtWin = secret\<rparr>]"
  "payments (fst (recordWin u cid rid rd secret ts s)) = payments s"
  "snd (recordWin u cid rid rd secret ts s) = (winnerCount rd + 1 = maxWinners rd, winnerCount rd + 1)"
  by (simp_all add: recordWin_def Let_def)

lemma submitGuess_cases:
  assumes "submitGuess s ctx g now ts = Inr (s', resp)"
  obtains a rid rd ud cid cd where
    "ctx = Some a" "validGuess g" "activeRoundQuery s = Some (rid, rd)"
    "users s (uid a) = Some ud" "userCodeQuery s (uid a) rid = Some (cid, cd)"
    "\<not> isWinnerInCurrentRound ud" "\<not> isWinner cd"
    "\<not> (withinWindow (lastGuessAttempt ud) now RATE_LIMIT_WINDOW_MS
        \<and> attemptsInCurrentRound ud \<ge> MAX_ATTEMPTS_PER_WINDOW)"
    "(\<not> areCodesEqual g (secretCode cd) \<and> s' = chargeAttempt (uid a) cid ud now ts s
        \<and> resp = incorrect_response)
     \<or> (areCodesEqual g (secretCode cd) \<and> winnerCount rd < maxWinners rd
        \<and> s' = fst (recordWin (uid a) cid rid rd (secretCode cd) ts
                      (chargeAttempt (uid a) cid ud now ts s))
        \<and> resp = correct_response (winnerCount rd + 1 = maxWinners rd) (winnerCount rd + 1))"
proof -
  from assms obtain a where a: "ctx = Some a" and v: "validGuess g"
    by (cases ctx) (auto simp: submitGuess_def split: if_splits)
  from assms a v obtain rid rd where r: "activeRoundQuery s = Some (rid, rd)"
    by (cases "activeRoundQuery s") (auto simp: submitGuess_def)
  from assms a v r obtain ud where u: "users s (uid a) = Some ud"
    by (cases "users s (uid a)") (auto simp: submitGuess_def)
  from assms a v r u obtain cid cd where c: "userCodeQuery s (uid a) rid = Some (cid, cd)"
    by (cases "userCodeQuery s (uid a) rid") (auto simp: submitGuess_def)
  note unf = assms[unfolded submitGuess_def a option.case v not_True_eq_False if_False r u c prod.case]
  from unf have w1: "\<not> isWinnerInCurrentRound ud" by (auto split: if_splits)
  from unf w1 have w2: "\<not> isWinner cd" by (auto split: if_splits)
  from unf w1 w2 have rl: "\<not> (withinWindow (lastGuessAttempt ud) now RATE_LIMIT_WINDOW_MS
        \<and> attemptsInCurrentRound ud \<ge> MAX_ATTEMPTS_PER_WINDOW)" by (auto split: if_splits)
  from unf w1 w2 rl have
    "(\<not> areCodesEqual g (secretCode cd) \<and> s' = chargeAttempt (uid a) cid ud now ts s
        \<and> resp = incorrect_response)
     \<or> (areCodesEqual g (secretCode cd) \<and> winnerCount rd < maxWinners rd
        \<and> s' = fst (recordWin (uid a) cid rid rd (secretCode cd) ts
                      (chargeAttempt (uid a) cid ud now ts s))
        \<and> resp = correct_response (winnerCount rd + 1 = maxWinners rd) (winnerCount rd + 1))"
    by (cases "recordWin (uid a) cid rid rd (secretCode cd) ts (chargeAttempt (uid a) cid ud now ts s)")
       (auto simp: Let_def incorrect_response_def correct_response_def recordWin_def
             split: if_splits)
  with a v r u c w1 w2 rl show ?thesis by (rule that)
qed

lemma assignSecretCode_cases:
  assumes "assignSecretCode s ctx rnd now = Some (Inr (s', resp))"
  obtains (existing) "s' = s"
  | (fresh) a rid rd code where
      "ctx = Some a" "activeRoundQuery s = Some (rid, rd)" "userCodeQuery s (uid a) rid = None"
      "findUniqueCode (userCodes s) rid rnd 0 = Some code"
      "userCodes s' = userCodes s @
         [\<lparr>userId = uid a, roundId = rid, secretCode = code, isWinner = False, attempts = 0,
           hintPurchases = 0, revealedDigits = []\<rparr>]"
      "rounds s' = rounds s" "winners s' = winners s" "payments s' = payments s"
      "resp = \<lparr>ar_success = True, ar_roundId = rid,
               ar_message = ''Secret code assigned for the active round.''\<rparr>"
proof -
  from assms obtain a where a: "ctx = Some a"
    by (cases ctx) (auto simp: assignSecretCode_def)
  from assms a obtain rid rd where r: "activeRoundQuery s = Some (rid, rd)"
    by (cases "activeRoundQuery s") (auto simp: assignSecretCode_def)
  show ?thesis
  proof (cases "userCodeQuery s (uid a) rid")
    case (Some e)
    with assms a r have "s' = s" by (simp add: assignSecretCode_def)
    then show ?thesis by (rule existing)
  next
    case None
    with assms a r obtain code where f: "findUniqueCode (userCodes s) rid rnd 0 = Some code"
      by (cases "findUniqueCode (userCodes s) rid rnd 0") (auto simp: assignSecretCode_def)
    from assms a r None f show ?thesis
      by (intro fresh[of a rid rd code])
         (auto simp: assignSecretCode_def Let_def split: option.splits)
  qed
qed

lemma requestHint_frame:
  assumes "requestHint s ctx r now ts = Inr (s', resp)"
  shows "rounds s' = rounds s" "userCodes s' = userCodes s" "winners s' = winners s"
  using assms
  by (auto simp: requestHint_def Let_def split: option.splits if_splits)

lemma finishRound_frame:
  assumes "finishRound s ridOpt now = Inr (s', resp)"
  shows "\<exists>rid. rid < length (rounds s) \<and>
           rounds s' = (rounds s)[rid := (rounds s ! rid)\<lparr>isActive := False, endTime := Some now\<rparr>]"
    "userCodes s' = userCodes s" "winners s' = winners s" "payments s' = payments s"
    "users s' = users s"
  using assms
  by (auto simp: finishRound_def split: option.splits if_splits)

lemma confirmPayment_tx_frame:
  assumes "confirmPayment_tx s pid tid now = Inr s'"
  shows "rounds s' = rounds s" "winners s' = winners s"
    "map (\<lambda>c. (roundId c, secretCode c)) (userCodes s') = map (\<lambda>c. (roundId c, secretCode c)) (userCodes s)"
  using assms
  by (auto simp: confirmPayment_tx_def Let_def map_list_update_same
           split: option.splits if_splits)

lemma confirmPayment_frame:
  "rounds (fst (confirmPayment s req now)) = rounds s"
  "winners (fst (confirmPayment s req now)) = winners s"
  "map (\<lambda>c. (roundId c, secretCode c)) (userCodes (fst (confirmPayment s req now))) =
     map (\<lambda>c. (roundId c, secretCode c)) (userCodes s)"
  by (auto simp: confirmPayment_def confirmPayment_tx_frame split: option.splits sum.splits)

section \<open>Invariants of the reachable stores\<close>

lemma reachable_run: "reachable s \<Longrightarrow> reachable (run s ops)"
  unfolding run_def by (induction ops arbitrary: s) (auto intro: reachable_step)

lemma quota_view_length [simp]: "length (quota_view s) = length (rounds s)"
  by (simp add: quota_view_def)

lemma quota_view_nth: "i < length (rounds s) \<Longrightarrow>
    quota_view s ! i = (winnerCount (rounds s ! i), maxWinners (rounds s ! i))"
  by (simp add: quota_view_def)

lemma findUniqueCode_unique:
  assumes "findUniqueCode codes rid rnd pos = Some code"
  shows "existingCodeQuery codes rid code = [] \<and> length code = 7 \<and> valid_code code"
proof (rule findUniqueCode.raw_induct
    [where P = "\<lambda>codes rid rnd pos code.
        existingCodeQuery codes rid code = [] \<and> length code = 7 \<and> valid_code code", OF _ assms])
  fix f :: "userCode list \<Rightarrow> nat \<Rightarrow> random_source \<Rightarrow> nat \<Rightarrow> digits option"
    and codes rid rnd pos code
  assume IH: "\<And>codes rid rnd pos code. f codes rid rnd pos = Some code \<Longrightarrow>
      existingCodeQuery codes rid code = [] \<and> length code = 7 \<and> valid_code code"
  assume body: "(case generateSecretCode rnd pos of None \<Rightarrow> None
      | Some (generatedCode, pos') \<Rightarrow>
          if existingCodeQuery codes rid generatedCode = [] then Some generatedCode
          else f codes rid rnd pos') = Some code"
  then obtain g pos' where g: "generateSecretCode rnd pos = Some (g, pos')"
    by (cases "generateSecretCode rnd pos") auto
  show "existingCodeQuery codes rid code = [] \<and> length code = 7 \<and> valid_code code"
  proof (cases "existingCodeQuery codes rid g = []")
    case True
    with body g have "code = g" by simp
    with True generateSecretCode_valid[OF g] show ?thesis by simp
  next
    case False
    with body g have "f codes rid rnd pos' = Some code" by simp
    then show ?thesis by (rule IH)
  qed
qed

lemma existingCodeQuery_empty:
  "existingCodeQuery codes rid code = [] \<Longrightarrow>
     (rid, code) \<notin> set (map (\<lambda>c. (roundId c, secretCode c)) codes)"
  by (auto simp: existingCodeQuery_def filter_empty_conv)

text \<open>The ways an operation can change the rounds' counters and the winners.\<close>

lemma submitGuess_shape:
  assumes "submitGuess s ctx g now ts = Inr (s', resp)"
  shows "(\<not> gr_isCorrect resp \<and> quota_view s' = quota_view s \<and> winners s' = winners s) \<or>
     (\<exists>rid rd u c. gr_isCorrect resp \<and> activeRoundQuery s = Some (rid, rd) \<and>
        rid < length (rounds s) \<and> rd = rounds s ! rid \<and> winnerCount rd < maxWinners rd \<and>
        quota_view s' = (quota_view s)[rid := (winnerCount rd + 1, maxWinners rd)] \<and>
        winners s' = winners s @ [\<lparr>w_roundId = rid, w_userId = u, winnerNumber = winnerCount rd + 1,
                                  winningTime = ts, secretCodeAtWin = c\<rparr>] \<and>
        gr_winnerNumber resp = Some (winnerCount rd + 1) \<and>
        gr_roundEnded resp = (winnerCount rd + 1 = maxWinners rd))"
  using assms
proof (cases rule: submitGuess_cases)
  case (1 a rid rd ud cid cd)
  from activeRoundQuery_Some[OF 1(3)] have rid: "rid < length (rounds s)" "rounds s ! rid = rd"
    by simp_all
  from 1(9) show ?thesis
  proof (elim disjE conjE)
    assume "s' = chargeAttempt (uid a) cid ud now ts s" "resp = incorrect_response"
    then show ?thesis by (simp add: quota_view_def incorrect_response_def)
  next
    assume w: "winnerCount rd < maxWinners rd"
      "s' = fst (recordWin (uid a) cid rid rd (secretCode cd) ts (chargeAttempt (uid a) cid ud now ts s))"
      "resp = correct_response (winnerCount rd + 1 = maxWinners rd) (winnerCount rd + 1)"
    have "quota_view s' = (quota_view s)[rid := (winnerCount rd + 1, maxWinners rd)]"
      using rid w(2) by (simp add: quota_view_def map_update)
    with w rid 1(3) show ?thesis
      by (intro disjI2 exI[of _ rid] exI[of _ rd] exI[of _ "uid a"] exI[of _ "secretCode cd"])
         (simp add: correct_response_def)
  qed
qed

lemma startRound_shape:
  "quota_view (fst (startRound s now)) = quota_view s @ [(0, 10)]"
proof (cases "lastRoundQuery s")
  case None
  then show ?thesis by (simp add: quota_view_def startRound_rounds lastRoundQuery_None)
next
  case (Some p)
  obtain i r where p: "p = (i, r)" by (cases p)
  from Some p lastRoundQuery_Some[of s i r] show ?thesis
    by (simp add: quota_view_def startRound_rounds map_list_update_same)
qed

lemma finishRound_shape:
  assumes "finishRound s ridOpt now = Inr (s', resp)"
  shows "quota_view s' = quota_view s"
  using finishRound_frame(1)[OF assms]
  by (auto simp: quota_view_def map_list_update_same)

lemma assignSecretCode_frame:
  assumes "assignSecretCode s ctx rnd now = Some (Inr (s', resp))"
  shows "rounds s' = rounds s" "winners s' = winners s"
  using assms by (cases rule: assignSecretCode_cases; simp)+

lemma apply_op_shape:
  "(quota_view (apply_op s opn) = quota_view s \<and> winners (apply_op s opn) = winners s) \<or>
   (quota_view (apply_op s opn) = quota_view s @ [(0, 10)] \<and> winners (apply_op s opn) = winners s) \<or>
   (\<exists>rid n m u t c. rid < length (rounds s) \<and> quota_view s ! rid = (n, m) \<and> n < m \<and>
      quota_view (apply_op s opn) = (quota_view s)[rid := (n + 1, m)] \<and>
      winners (apply_op s opn) = winners s @
        [\<lparr>w_roundId = rid, w_userId = u, winnerNumber = n + 1, winningTime = t, secretCodeAtWin = c\<rparr>])"
proof (cases opn)
  case (StartRound now)
  then show ?thesis by (simp add: startRound_shape startRound_frame)
next
  case (AssignSecretCode ctx rnd now)
  then show ?thesis
    by (auto simp: quota_view_def assignSecretCode_frame split: option.splits sum.splits)
next
  case (SubmitGuess ctx g now ts)
  show ?thesis
  proof (cases "submitGuess s ctx g now ts")
    case (Inl e)
    with SubmitGuess show ?thesis by simp
  next
    case (Inr p)
    obtain s' resp where p: "p = (s', resp)" by (cases p)
    from submitGuess_shape[OF Inr[unfolded p]] show ?thesis
    proof (elim disjE exE conjE)
      assume "quota_view s' = quota_view s" "winners s' = winners s"
      with SubmitGuess Inr p show ?thesis by simp
    next
      fix rid rd u c
      assume a: "rid < length (rounds s)" "rd = rounds s ! rid" "winnerCount rd < maxWinners rd"
        "quota_view s' = (quota_view s)[rid := (winnerCount rd + 1, maxWinners rd)]"
        "winners s' = winners s @ [\<lparr>w_roundId = rid, w_userId = u, winnerNumber = winnerCount rd + 1,
                                  winningTime = ts, secretCodeAtWin = c\<rparr>]"
      have "\<exists>rid n m u t c. rid < length (rounds s) \<and> quota_view s ! rid = (n, m) \<and> n < m \<and>
        quota_view s' = (quota_view s)[rid := (n + 1, m)] \<and>
        winners s' = winners s @
          [\<lparr>w_roundId = rid, w_userId = u, winnerNumber = n + 1, winningTime = t, secretCodeAtWin = c\<rparr>]"
        using a
        by (intro exI[of _ rid] exI[of _ "winnerCount rd"] exI[of _ "maxWinners rd"] exI[of _ u]
              exI[of _ ts] exI[of _ c]) (simp add: quota_view_nth)
      with SubmitGuess Inr p show ?thesis by simp
    qed
  qed
next
  case (RequestHint ctx r now ts)
  then show ?thesis
    by (auto simp: quota_view_def requestHint_frame split: sum.splits)
next
  case (ConfirmPayment req now)
  then show ?thesis by (simp add: quota_view_def confirmPayment_frame)
next
  case (FinishRound ridOpt now)
  then show ?thesis
    by (auto simp: finishRound_shape finishRound_frame split: sum.splits)
qed

subsection \<open>Winner quota and ranks\<close>

lemma quota_inv_step: "quota_inv s \<Longrightarrow> quota_inv (apply_op s opn)"
  using apply_op_shape[of s opn]
proof (elim disjE exE conjE)
  assume "quota_inv s" "quota_view (apply_op s opn) = quota_view s"
  then show ?thesis by (simp only: quota_inv_def)
next
  assume "quota_inv s" "quota_view (apply_op s opn) = quota_view s @ [(0, 10)]"
  then show ?thesis by (auto simp: quota_inv_def)
next
  fix rid n m u t c
  assume q: "quota_inv s" and rid: "rid < length (rounds s)" and nm: "quota_view s ! rid = (n, m)"
    and lt: "n < m" and v: "quota_view (apply_op s opn) = (quota_view s)[rid := (n + 1, m)]"
  from rid nm have "(n, m) \<in> set (quota_view s)"
    by (metis nth_mem quota_view_length)
  with q have m: "m = 10" by (auto simp: quota_inv_def)
  have "set ((quota_view s)[rid := (n + 1, m)]) \<subseteq> insert (n + 1, m) (set (quota_view s))"
    by (rule set_update_subset_insert)
  with q m lt show ?thesis unfolding quota_inv_def v by auto
qed

lemma quota_inv_reachable: "reachable s \<Longrightarrow> quota_inv s"
proof (induction rule: reachable.induct)
  case reachable_init
  show ?case by (simp add: quota_inv_def quota_view_def init_store_def)
next
  case (reachable_step s opn)
  then show ?case by (simp add: quota_inv_step)
qed

lemma ranks_of_append:
  "winners s' = winners s @ [w] \<Longrightarrow>
   ranks_of s' rid = (if w_roundId w = rid then ranks_of s rid @ [winnerNumber w] else ranks_of s rid)"
  by (simp add: ranks_of_def)

lemma ranks_of_cong: "winners s' = winners s \<Longrightarrow> ranks_of s' rid = ranks_of s rid"
  by (simp add: ranks_of_def)

lemma ranks_of_none: "\<forall>w\<in>set (winners s). w_roundId w \<noteq> rid \<Longrightarrow> ranks_of s rid = []"
  by (simp add: ranks_of_def filter_empty_conv)

lemma length_rounds_view: "quota_view s' = v \<Longrightarrow> length (rounds s') = length v"
  by (metis quota_view_length)

lemma ranks_inv_same:
  assumes r: "ranks_inv s" and v: "quota_view s' = quota_view s" and w: "winners s' = winners s"
  shows "ranks_inv s'"
proof -
  from length_rounds_view[OF v] have l: "length (rounds s') = length (rounds s)" by simp
  show ?thesis unfolding ranks_inv_def l v w ranks_of_cong[OF w]
    using r unfolding ranks_inv_def .
qed

lemma ranks_inv_new_round:
  assumes r: "ranks_inv s" and v: "quota_view s' = quota_view s @ [(0, 10)]"
    and w: "winners s' = winners s"
  shows "ranks_inv s'"
proof -
  from length_rounds_view[OF v] have l: "length (rounds s') = Suc (length (rounds s))" by simp
  from r have old: "\<forall>x\<in>set (winners s). w_roundId x < length (rounds s)"
    and rk: "\<forall>rid<length (rounds s). ranks_of s rid = [1..<Suc (fst (quota_view s ! rid))]"
    unfolding ranks_inv_def by blast+
  from old have "\<forall>x\<in>set (winners s). w_roundId x \<noteq> length (rounds s)" by fastforce
  then have new: "ranks_of s (length (rounds s)) = []" by (rule ranks_of_none)
  show ?thesis unfolding ranks_inv_def l w ranks_of_cong[OF w]
  proof (intro conjI ballI allI impI)
    fix x assume "x \<in> set (winners s)"
    with old show "w_roundId x < Suc (length (rounds s))" by (simp add: less_SucI)
  next
    fix rid assume "rid < Suc (length (rounds s))"
    then have "rid < length (rounds s) \<or> rid = length (rounds s)" by (simp add: less_Suc_eq)
    then show "ranks_of s rid = [1..<Suc (fst (quota_view s' ! rid))]"
    proof
      assume a: "rid < length (rounds s)"
      then have "quota_view s' ! rid = quota_view s ! rid" unfolding v by (simp add: nth_append)
      with rk a show ?thesis by simp
    next
      assume a: "rid = length (rounds s)"
      then have "quota_view s' ! rid = (0, 10)" unfolding v by (simp add: nth_append)
      with new a show ?thesis by simp
    qed
  qed
qed

lemma ranks_inv_win:
  assumes r: "ranks_inv s" and rid: "rid < length (rounds s)" and nm: "quota_view s ! rid = (n, m)"
    and v: "quota_view s' = (quota_view s)[rid := (n + 1, m)]"
    and w: "winners s' = winners s @
        [\<lparr>w_roundId = rid, w_userId = u, winnerNumber = n + 1, winningTime = t, secretCodeAtWin = c\<rparr>]"
  shows "ranks_inv s'"
proof -
  from length_rounds_view[OF v] have l: "length (rounds s') = length (rounds s)" by simp
  from r have old: "\<forall>x\<in>set (winners s). w_roundId x < length (rounds s)"
    and rk: "\<forall>rid<length (rounds s). ranks_of s rid = [1..<Suc (fst (quota_view s ! rid))]"
    unfolding ranks_inv_def by blast+
  show ?thesis unfolding ranks_inv_def l
  proof (intro conjI ballI allI impI)
    fix x assume "x \<in> set (winners s')"
    then have "x \<in> set (winners s) \<or> w_roundId x = rid" unfolding w by auto
    with old rid show "w_roundId x < length (rounds s)" by blast
  next
    fix k assume k: "k < length (rounds s)"
    show "ranks_of s' k = [1..<Suc (fst (quota_view s' ! k))]"
    proof (cases "k = rid")
      case True
      from rk rid nm have "ranks_of s rid = [1..<Suc n]" by simp
      then have "ranks_of s' rid = [1..<Suc n] @ [Suc n]" by (simp add: ranks_of_append[OF w])
      moreover have "quota_view s' ! rid = (Suc n, m)" unfolding v using rid by simp
      ultimately show ?thesis unfolding True by simp
    next
      case False
      then have "ranks_of s' k = ranks_of s k" by (simp add: ranks_of_append[OF w])
      moreover have "quota_view s' ! k = quota_view s ! k" unfolding v using False by simp
      ultimately show ?thesis using rk k by simp
    qed
  qed
qed

lemma ranks_inv_step: "ranks_inv s \<Longrightarrow> ranks_inv (apply_op s opn)"
  using apply_op_shape[of s opn]
proof (elim disjE exE conjE)
  assume "ranks_inv s" "quota_view (apply_op s opn) = quota_view s"
    "winners (apply_op s opn) = winners s"
  then show ?thesis by (rule ranks_inv_same)
next
  assume "ranks_inv s" "quota_view (apply_op s opn) = quota_view s @ [(0, 10)]"
    "winners (apply_op s opn) = winners s"
  then show ?thesis by (rule ranks_inv_new_round)
next
  fix rid n m u t c
  assume "ranks_inv s" "rid < length (rounds s)" "quota_view s ! rid = (n, m)"
    "quota_view (apply_op s opn) = (quota_view s)[rid := (n + 1, m)]"
    "winners (apply_op s opn) = winners s @
        [\<lparr>w_roundId = rid, w_userId = u, winnerNumber = n + 1, winningTime = t, secretCodeAtWin = c\<rparr>]"
  then show ?thesis by (rule ranks_inv_win)
qed

lemma ranks_inv_reachable: "reachable s \<Longrightarrow> ranks_inv s"
proof (induction rule: reachable.induct)
  case reachable_init
  show ?case by (simp add: ranks_inv_def init_store_def)
next
  case (reachable_step s opn)
  then show ?case by (simp add: ranks_inv_step)
qed

text \<open>A correct guess against a round that has reached its quota is rejected.\<close>

lemma submitGuess_quota_reject:
  assumes "validGuess g" "activeRoundQuery s = Some (rid, rd)" "users s (uid a) = Some ud"
    "userCodeQuery s (uid a) rid = Some (cid, cd)"
    "\<not> isWinnerInCurrentRound ud" "\<not> isWinner cd"
    "\<not> (withinWindow (lastGuessAttempt ud) now RATE_LIMIT_WINDOW_MS
        \<and> attemptsInCurrentRound ud \<ge> MAX_ATTEMPTS_PER_WINDOW)"
    "areCodesEqual g (secretCode cd)" "winnerCount rd \<ge> maxWinners rd"
  shows "submitGuess s (Some a) g now ts =
    Inl (HttpsError FailedPrecondition ''Round has already reached maximum winners.'' None)"
  using assms by (simp add: submitGuess_def Let_def)

text \<open>
  C1. In every reachable store every round has maxWinners = 10 and a winnerCount that does
  not exceed it, whatever the interleaving of the calls. A submitGuess that commits with a
  correct guess found the active round's winnerCount below the quota and raised it by one;
  with the winnerCount at the quota, a correct guess that passed the earlier checks fails
  with failed-precondition.
\<close>

theorem winner_quota_invariant:
  "(reachable s \<longrightarrow> (\<forall>r\<in>set (rounds s). maxWinners r = 10 \<and> winnerCount r \<le> maxWinners r)) \<and>
   (submitGuess s0 ctx g now ts = Inr (s', resp) \<and> gr_isCorrect resp \<longrightarrow>
      (\<exists>rid rd. activeRoundQuery s0 = Some (rid, rd) \<and> winnerCount rd < maxWinners rd \<and>
         winnerCount (rounds s' ! rid) = winnerCount rd + 1 \<and>
         maxWinners (rounds s' ! rid) = maxWinners rd)) \<and>
   (validGuess g1 \<and> activeRoundQuery s1 = Some (rid1, rd1) \<and> users s1 (uid a) = Some ud \<and>
    userCodeQuery s1 (uid a) rid1 = Some (cid, cd) \<and>
    \<not> isWinnerInCurrentRound ud \<and> \<not> isWinner cd \<and>
    \<not> (withinWindow (lastGuessAttempt ud) now1 RATE_LIMIT_WINDOW_MS
        \<and> attemptsInCurrentRound ud \<ge> MAX_ATTEMPTS_PER_WINDOW) \<and>
    areCodesEqual g1 (secretCode cd) \<and> winnerCount rd1 \<ge> maxWinners rd1 \<longrightarrow>
      submitGuess s1 (Some a) g1 now1 ts1 =
        Inl (HttpsError FailedPrecondition ''Round has already reached maximum winners.'' None))"
proof (intro conjI impI)
  assume "reachable s"
  then have "quota_inv s" by (rule quota_inv_reachable)
  then show "\<forall>r\<in>set (rounds s). maxWinners r = 10 \<and> winnerCount r \<le> maxWinners r"
    by (auto simp: quota_inv_def quota_view_def)
next
  assume "submitGuess s0 ctx g now ts = Inr (s', resp) \<and> gr_isCorrect resp"
  then have c: "submitGuess s0 ctx g now ts = Inr (s', resp)" and "gr_isCorrect resp" by simp_all
  with submitGuess_shape[OF c] obtain rid rd where
    r: "activeRoundQuery s0 = Some (rid, rd)" "rid < length (rounds s0)"
      "winnerCount rd < maxWinners rd"
      "quota_view s' = (quota_view s0)[rid := (winnerCount rd + 1, maxWinners rd)]"
    by auto
  from length_rounds_view[OF r(4)] r(2) have "rid < length (rounds s')" by simp
  from quota_view_nth[OF this] r(2,4)
  have "winnerCount (rounds s' ! rid) = winnerCount rd + 1 \<and> maxWinners (rounds s' ! rid) = maxWinners rd"
    by simp
  with r show "\<exists>rid rd. activeRoundQuery s0 = Some (rid, rd) \<and> winnerCount rd < maxWinners rd \<and>
         winnerCount (rounds s' ! rid) = winnerCount rd + 1 \<and>
         maxWinners (rounds s' ! rid) = maxWinners rd" by blast
next
  assume "validGuess g1 \<and> activeRoundQuery s1 = Some (rid1, rd1) \<and> users s1 (uid a) = Some ud \<and>
    userCodeQuery s1 (uid a) rid1 = Some (cid, cd) \<and>
    \<not> isWinnerInCurrentRound ud \<and> \<not> isWinner cd \<and>
    \<not> (withinWindow (lastGuessAttempt ud) now1 RATE_LIMIT_WINDOW_MS
        \<and> attemptsInCurrentRound ud \<ge> MAX_ATTEMPTS_PER_WINDOW) \<and>
    areCodesEqual g1 (secretCode cd) \<and> winnerCount rd1 \<ge> maxWinners rd1"
  then show "submitGuess s1 (Some a) g1 now1 ts1 =
        Inl (HttpsError FailedPrecondition ''Round has already reached maximum winners.'' None)"
    by (elim conjE) (rule submitGuess_quota_reject, assumption+)
qed

theorem winner_quota_invariant_witness:
  "reachable (run init_store eleven_trace) \<and>
   quota_view (run init_store eleven_trace) = [(10, 10)] \<and>
   winnerCount (hd (rounds (run init_store eleven_trace)))
     \<le> maxWinners (hd (rounds (run init_store eleven_trace))) \<and>
   (\<exists>s' resp. submitGuess (run init_store one_player_trace) (player 0) (code_of 0) 1 2 = Inr (s', resp)
      \<and> gr_isCorrect resp \<and> winnerCount (rounds s' ! 0) = 1) \<and>
   submitGuess full_round_store (Some pa) [0, 1, 2, 3, 4, 5, 6] 2000 2001 =
     Inl (HttpsError FailedPrecondition ''Round has already reached maximum winners.'' None)"
proof -
  let ?S = "run init_store eleven_trace"
  let ?s = "run init_store one_player_trace"
  have r: "reachable ?S" by (rule reachable_run[OF reachable_init])
  have q: "quota_view ?S = [(10, 10)]" by code_simp
  have ne: "rounds ?S \<noteq> []" by code_simp
  from winner_quota_invariant[THEN conjunct1, THEN mp, OF r] hd_in_set[OF ne]
  have h: "winnerCount (hd (rounds ?S)) \<le> maxWinners (hd (rounds ?S))" by blast
  have c: "case submitGuess ?s (player 0) (code_of 0) 1 2 of
      Inl e \<Rightarrow> False | Inr (s', resp) \<Rightarrow> gr_isCorrect resp" by code_simp
  then obtain s' resp where c': "submitGuess ?s (player 0) (code_of 0) 1 2 = Inr (s', resp)"
      "gr_isCorrect resp"
    by (cases "submitGuess ?s (player 0) (code_of 0) 1 2") auto
  have a: "map_option (\<lambda>(i, r). (i, winnerCount r)) (activeRoundQuery ?s) = Some (0, 0)"
    by code_simp
  from winner_quota_invariant[THEN conjunct2, THEN conjunct1, THEN mp, OF conjI[OF c']]
  obtain rid rd where "activeRoundQuery ?s = Some (rid, rd)"
      "winnerCount (rounds s' ! rid) = winnerCount rd + 1" by blast
  with a have "winnerCount (rounds s' ! 0) = 1" by auto
  with c' have e: "\<exists>s' resp. submitGuess ?s (player 0) (code_of 0) 1 2 = Inr (s', resp)
      \<and> gr_isCorrect resp \<and> winnerCount (rounds s' ! 0) = 1" by blast
  have f1: "validGuess [0, 1, 2, 3, 4, 5, 6]" by code_simp
  have f2: "activeRoundQuery full_round_store = Some (0, hd (rounds full_round_store))" by code_simp
  have f3: "users full_round_store (uid pa) = Some (the (users full_round_store ''a''))"
    by code_simp
  have f4: "userCodeQuery full_round_store (uid pa) 0 = Some (0, hd (userCodes full_round_store))"
    by code_simp
  have f5: "\<not> isWinnerInCurrentRound (the (users full_round_store ''a''))"
    "\<not> isWinner (hd (userCodes full_round_store))"
    "\<not> (withinWindow (lastGuessAttempt (the (users full_round_store ''a''))) 2000 RATE_LIMIT_WINDOW_MS
        \<and> attemptsInCurrentRound (the (users full_round_store ''a'')) \<ge> MAX_ATTEMPTS_PER_WINDOW)"
    "areCodesEqual [0, 1, 2, 3, 4, 5, 6] (secretCode (hd (userCodes full_round_store)))"
    "winnerCount (hd (rounds full_round_store)) \<ge> maxWinners (hd (rounds full_round_store))"
    by code_simp+
  note hyp = conjI[OF f1 conjI[OF f2 conjI[OF f3 conjI[OF f4 conjI[OF f5(1) conjI[OF f5(2)
      conjI[OF f5(3) conjI[OF f5(4) f5(5)]]]]]]]]
  from winner_quota_invariant[THEN conjunct2, THEN conjunct2, THEN mp, OF hyp]
  have "submitGuess full_round_store (Some pa) [0, 1, 2, 3, 4, 5, 6] 2000 2001 =
     Inl (HttpsError FailedPrecondition ''Round has already reached maximum winners.'' None)" .
  with r q h e show ?thesis by blast
qed

text \<open>
  C2. A submitGuess that commits with a correct guess appends exactly one winner record,
  whose rank is the round's winnerCount after the increment and is the rank returned;
  one that commits with a wrong guess appends none. In every reachable store the ranks
  recorded for a round are, in the order of the commits, 1, 2, ..., winnerCount, with
  winnerCount at most the quota of 10.
\<close>

theorem winner_ranks_gapless:
  "(reachable s \<longrightarrow>
      (\<forall>rid<length (rounds s).
          ranks_of s rid = [1..<Suc (winnerCount (rounds s ! rid))] \<and>
          winnerCount (rounds s ! rid) \<le> 10)) \<and>
   (submitGuess s0 ctx g now ts = Inr (s', resp) \<longrightarrow>
      (if gr_isCorrect resp
       then \<exists>rid rd w. activeRoundQuery s0 = Some (rid, rd) \<and> winners s' = winners s0 @ [w] \<and>
              w_roundId w = rid \<and> winnerNumber w = winnerCount (rounds s' ! rid) \<and>
              winnerCount (rounds s' ! rid) = winnerCount rd + 1 \<and>
              gr_winnerNumber resp = Some (winnerNumber w)
       else winners s' = winners s0))"
proof (intro conjI impI allI)
  fix rid assume "reachable s" and rid: "rid < length (rounds s)"
  then have "ranks_inv s" and q: "quota_inv s"
    by (simp_all add: ranks_inv_reachable quota_inv_reachable)
  with rid show "ranks_of s rid = [1..<Suc (winnerCount (rounds s ! rid))]"
    by (simp add: ranks_inv_def quota_view_nth)
  from rid have "rounds s ! rid \<in> set (rounds s)" by simp
  with q show "winnerCount (rounds s ! rid) \<le> 10"
    by (auto simp: quota_inv_def quota_view_def)
next
  assume c: "submitGuess s0 ctx g now ts = Inr (s', resp)"
  from submitGuess_shape[OF c]
  show "if gr_isCorrect resp
       then \<exists>rid rd w. activeRoundQuery s0 = Some (rid, rd) \<and> winners s' = winners s0 @ [w] \<and>
              w_roundId w = rid \<and> winnerNumber w = winnerCount (rounds s' ! rid) \<and>
              winnerCount (rounds s' ! rid) = winnerCount rd + 1 \<and>
              gr_winnerNumber resp = Some (winnerNumber w)
       else winners s' = winners s0"
  proof (elim disjE exE conjE)
    assume "\<not> gr_isCorrect resp" "winners s' = winners s0"
    then show ?thesis by simp
  next
    fix rid rd u c
    assume a: "gr_isCorrect resp" "activeRoundQuery s0 = Some (rid, rd)" "rid < length (rounds s0)"
      "quota_view s' = (quota_view s0)[rid := (winnerCount rd + 1, maxWinners rd)]"
      "winners s' = winners s0 @ [\<lparr>w_roundId = rid, w_userId = u, winnerNumber = winnerCount rd + 1,
                                  winningTime = ts, secretCodeAtWin = c\<rparr>]"
      "gr_winnerNumber resp = Some (winnerCount rd + 1)"
    from length_rounds_view[OF a(4)] a(3) have "rid < length (rounds s')" by simp
    from quota_view_nth[OF this] a(3,4) have "winnerCount (rounds s' ! rid) = winnerCount rd + 1"
      by simp
    with a show ?thesis
      by (intro iffD2[OF if_P] exI[of _ rid] exI[of _ rd]
            exI[of _ "\<lparr>w_roundId = rid, w_userId = u, winnerNumber = winnerCount rd + 1,
                                  winningTime = ts, secretCodeAtWin = c\<rparr>"]) simp_all
  qed
qed

theorem winner_ranks_gapless_witness:
  "reachable (run init_store eleven_trace) \<and>
   ranks_of (run init_store eleven_trace) 0 = [1, 2, 3, 4, 5, 6, 7, 8, 9, 10] \<and>
   ranks_of (run init_store eleven_trace) 0
     = [1..<Suc (winnerCount (rounds (run init_store eleven_trace) ! 0))] \<and>
   (\<exists>s' resp w. submitGuess (run init_store one_player_trace) (player 0) (code_of 0) 1 2 = Inr (s', resp)
      \<and> winners s' = winners (run init_store one_player_trace) @ [w]
      \<and> winnerNumber w = 1 \<and> gr_winnerNumber resp = Some 1)"
proof -
  let ?S = "run init_store eleven_trace"
  let ?s = "run init_store one_player_trace"
  have r: "reachable ?S" by (rule reachable_run[OF reachable_init])
  have l: "0 < length (rounds ?S)" by code_simp
  have k: "ranks_of ?S 0 = [1, 2, 3, 4, 5, 6, 7, 8, 9, 10]" by code_simp
  from winner_ranks_gapless[THEN conjunct1, THEN mp, OF r] l
  have g: "ranks_of ?S 0 = [1..<Suc (winnerCount (rounds ?S ! 0))]" by blast
  have c: "case submitGuess ?s (player 0) (code_of 0) 1 2 of
      Inl e \<Rightarrow> False | Inr (s', resp) \<Rightarrow> gr_isCorrect resp" by code_simp
  then obtain s' resp where c': "submitGuess ?s (player 0) (code_of 0) 1 2 = Inr (s', resp)"
      "gr_isCorrect resp"
    by (cases "submitGuess ?s (player 0) (code_of 0) 1 2") auto
  have a: "map_option (\<lambda>(i, r). (i, winnerCount r)) (activeRoundQuery ?s) = Some (0, 0)"
    by code_simp
  from winner_ranks_gapless[THEN conjunct2, THEN mp, OF c'(1)] c'(2)
  have "\<exists>rid rd w. activeRoundQuery ?s = Some (rid, rd) \<and> winners s' = winners ?s @ [w] \<and>
      w_roundId w = rid \<and> winnerNumber w = winnerCount (rounds s' ! rid) \<and>
      winnerCount (rounds s' ! rid) = winnerCount rd + 1 \<and>
      gr_winnerNumber resp = Some (winnerNumber w)"
    by (simp only: if_True)
  then obtain rid rd w where w: "activeRoundQuery ?s = Some (rid, rd)" "winners s' = winners ?s @ [w]"
      "winnerNumber w = winnerCount (rounds s' ! rid)"
      "winnerCount (rounds s' ! rid) = winnerCount rd + 1"
      "gr_winnerNumber resp = Some (winnerNumber w)"
    by blast
  from w(1) a have "winnerCount rd = 0" by auto
  with w have "winnerNumber w = 1" "gr_winnerNumber resp = Some 1" by simp_all
  with c' w(2) have "\<exists>s' resp w. submitGuess ?s (player 0) (code_of 0) 1 2 = Inr (s', resp)
      \<and> winners s' = winners ?s @ [w] \<and> winnerNumber w = 1 \<and> gr_winnerNumber resp = Some 1"
    by blast
  with r k g show ?thesis by blast
qed

subsection \<open>Secret codes are unique within a round\<close>

lemma submitGuess_code_keys:
  assumes "submitGuess s ctx g now ts = Inr (s', resp)"
  shows "code_keys s' = code_keys s"
  using assms
proof (cases rule: submitGuess_cases)
  case (1 a rid rd ud cid cd)
  from userCodeQuery_Some[OF 1(5)] have cid: "cid < length (userCodes s)" by simp
  from 1(9) show ?thesis
  proof (elim disjE conjE)
    assume "s' = chargeAttempt (uid a) cid ud now ts s"
    then show ?thesis by (simp add: code_keys_def map_list_update_same)
  next
    assume "s' = fst (recordWin (uid a) cid rid rd (secretCode cd) ts (chargeAttempt (uid a) cid ud now ts s))"
    with cid show ?thesis by (simp add: code_keys_def map_list_update_same)
  qed
qed

lemma assignSecretCode_code_keys:
  assumes "assignSecretCode s ctx rnd now = Some (Inr (s', resp))"
  shows "userCodes s' = userCodes s \<or>
     (\<exists>c. userCodes s' = userCodes s @ [c] \<and> (roundId c, secretCode c) \<notin> set (code_keys s))"
  using assms
proof (cases rule: assignSecretCode_cases)
  case existing
  then show ?thesis by simp
next
  case (fresh a rid rd code)
  from findUniqueCode_unique[OF fresh(4)] have "(rid, code) \<notin> set (code_keys s)"
    unfolding code_keys_def by (intro existingCodeQuery_empty) simp
  with fresh(5) show ?thesis by simp
qed

lemma apply_op_code_keys:
  "code_keys (apply_op s opn) = code_keys s \<or>
   (\<exists>k. code_keys (apply_op s opn) = code_keys s @ [k] \<and> k \<notin> set (code_keys s))"
proof (cases opn)
  case (StartRound now)
  then show ?thesis by (simp add: code_keys_def startRound_frame)
next
  case (AssignSecretCode ctx rnd now)
  show ?thesis
  proof (cases "assignSecretCode s ctx rnd now")
    case None
    with AssignSecretCode show ?thesis by simp
  next
    case (Some r)
    show ?thesis
    proof (cases r)
      case (Inl e)
      with AssignSecretCode Some show ?thesis by simp
    next
      case (Inr p)
      obtain s' resp where p: "p = (s', resp)" by (cases p)
      from assignSecretCode_code_keys[OF Some[unfolded Inr p]] AssignSecretCode Some Inr p
      show ?thesis by (auto simp: code_keys_def)
    qed
  qed
next
  case (SubmitGuess ctx g now ts)
  then show ?thesis
    by (auto simp: submitGuess_code_keys split: sum.splits)
next
  case (RequestHint ctx r now ts)
  then show ?thesis
    by (auto simp: code_keys_def requestHint_frame split: sum.splits)
next
  case (ConfirmPayment req now)
  then show ?thesis by (simp add: code_keys_def confirmPayment_frame)
next
  case (FinishRound ridOpt now)
  then show ?thesis
    by (auto simp: code_keys_def finishRound_frame split: sum.splits)
qed

lemma distinct_code_keys_reachable: "reachable s \<Longrightarrow> distinct (code_keys s)"
proof (induction rule: reachable.induct)
  case reachable_init
  show ?case by (simp add: code_keys_def init_store_def)
next
  case (reachable_step s opn)
  with apply_op_code_keys[of s opn] show ?case by auto
qed

text \<open>
  C6. In every reachable store, two different UserCode records of the same round hold
  different secret sequences. An assignSecretCode that commits either leaves the code
  records as they are (the player had a code) or appends one record whose sequence no
  record of that round held when the transaction read them.
\<close>

theorem secret_codes_unique_per_round:
  "(reachable s \<longrightarrow>
      (\<forall>i<length (userCodes s). \<forall>j<length (userCodes s).
          i \<noteq> j \<and> roundId (userCodes s ! i) = roundId (userCodes s ! j) \<longrightarrow>
          secretCode (userCodes s ! i) \<noteq> secretCode (userCodes s ! j))) \<and>
   (assignSecretCode s0 ctx rnd now = Some (Inr (s', resp)) \<longrightarrow>
      userCodes s' = userCodes s0 \<or>
      (\<exists>c. userCodes s' = userCodes s0 @ [c] \<and>
           (\<forall>c'\<in>set (userCodes s0). roundId c' = roundId c \<longrightarrow> secretCode c' \<noteq> secretCode c)))"
proof (intro conjI impI allI)
  fix i j
  assume r: "reachable s" and i: "i < length (userCodes s)" and j: "j < length (userCodes s)"
    and ij: "i \<noteq> j \<and> roundId (userCodes s ! i) = roundId (userCodes s ! j)"
  from distinct_code_keys_reachable[OF r] i j ij
  have "code_keys s ! i \<noteq> code_keys s ! j"
    by (simp add: distinct_conv_nth code_keys_def)
  with i j ij show "secretCode (userCodes s ! i) \<noteq> secretCode (userCodes s ! j)"
    by (simp add: code_keys_def)
next
  assume "assignSecretCode s0 ctx rnd now = Some (Inr (s', resp))"
  from assignSecretCode_code_keys[OF this]
  show "userCodes s' = userCodes s0 \<or>
      (\<exists>c. userCodes s' = userCodes s0 @ [c] \<and>
           (\<forall>c'\<in>set (userCodes s0). roundId c' = roundId c \<longrightarrow> secretCode c' \<noteq> secretCode c))"
  proof (elim disjE exE conjE)
    assume "userCodes s' = userCodes s0"
    then show ?thesis by simp
  next
    fix c assume c: "userCodes s' = userCodes s0 @ [c]"
      and n: "(roundId c, secretCode c) \<notin> set (code_keys s0)"
    have "\<forall>c'\<in>set (userCodes s0). roundId c' = roundId c \<longrightarrow> secretCode c' \<noteq> secretCode c"
    proof (intro ballI impI notI)
      fix c' assume "c' \<in> set (userCodes s0)" "roundId c' = roundId c" "secretCode c' = secretCode c"
      then have "(roundId c, secretCode c) \<in> set (code_keys s0)"
        unfolding code_keys_def by (metis (mono_tags, lifting) image_eqI list.set_map)
      with n show False by contradiction
    qed
    with c show ?thesis by blast
  qed
qed

theorem secret_codes_unique_per_round_witness:
  "reachable (run init_store eleven_trace) \<and>
   length (userCodes (run init_store eleven_trace)) = 11 \<and>
   roundId (userCodes (run init_store eleven_trace) ! 0) =
     roundId (userCodes (run init_store eleven_trace) ! 1) \<and>
   secretCode (userCodes (run init_store eleven_trace) ! 0) \<noteq>
     secretCode (userCodes (run init_store eleven_trace) ! 1) \<and>
   map secretCode (userCodes (run init_store one_player_trace)) = [[0, 1, 2, 3, 4, 5, 6]] \<and>
   (\<exists>s' resp c. assignSecretCode (run init_store one_player_trace) (player 1) (\<lambda>k. k) 0
        = Some (Inr (s', resp)) \<and>
      userCodes s' = userCodes (run init_store one_player_trace) @ [c] \<and>
      secretCode c = [7, 8, 9, 0, 1, 2, 3])"
proof -
  let ?S = "run init_store eleven_trace"
  let ?s = "run init_store one_player_trace"
  have r: "reachable ?S" by (rule reachable_run[OF reachable_init])
  have l: "length (userCodes ?S) = 11" by code_simp
  have e: "roundId (userCodes ?S ! 0) = roundId (userCodes ?S ! 1)" by code_simp
  from secret_codes_unique_per_round[THEN conjunct1, THEN mp, OF r] l e
  have d: "secretCode (userCodes ?S ! 0) \<noteq> secretCode (userCodes ?S ! 1)" by simp
  have o: "map secretCode (userCodes ?s) = [[0, 1, 2, 3, 4, 5, 6]]" by code_simp
  have c: "case assignSecretCode ?s (player 1) (\<lambda>k. k) 0 of
      Some (Inr (s', resp)) \<Rightarrow> map secretCode (userCodes s') = [[0, 1, 2, 3, 4, 5, 6], [7, 8, 9, 0, 1, 2, 3]]
    | _ \<Rightarrow> False" by code_simp
  then obtain s' resp where c': "assignSecretCode ?s (player 1) (\<lambda>k. k) 0 = Some (Inr (s', resp))"
      "map secretCode (userCodes s') = [[0, 1, 2, 3, 4, 5, 6], [7, 8, 9, 0, 1, 2, 3]]"
    by (auto split: option.splits sum.splits)
  from secret_codes_unique_per_round[THEN conjunct2, THEN mp, OF c'(1)]
  have "userCodes s' = userCodes ?s \<or> (\<exists>c. userCodes s' = userCodes ?s @ [c])" by blast
  moreover from c'(2) o have "userCodes s' \<noteq> userCodes ?s" by auto
  ultimately obtain c where c2: "userCodes s' = userCodes ?s @ [c]" by blast
  with c'(2) o have "secretCode c = [7, 8, 9, 0, 1, 2, 3]" by simp
  with c'(1) c2 have "\<exists>s' resp c. assignSecretCode ?s (player 1) (\<lambda>k. k) 0 = Some (Inr (s', resp)) \<and>
      userCodes s' = userCodes ?s @ [c] \<and> secretCode c = [7, 8, 9, 0, 1, 2, 3]" by blast
  with r l e d o show ?thesis by blast
qed

subsection \<open>Hints revealed beyond the quota\<close>


subsection \<open>Confirming a payment twice\<close>

lemma requestHint_payments:
  assumes "requestHint s ctx r now ts = Inr (s', resp)"
  shows "\<exists>p. payments s' = payments s @ [p]"
  using assms
  by (auto simp: requestHint_def Let_def split: option.splits if_splits)

lemma submitGuess_payments:
  assumes "submitGuess s ctx g now ts = Inr (s', resp)"
  shows "payments s' = payments s"
  using assms by (cases rule: submitGuess_cases) auto

lemma assignSecretCode_payments:
  assumes "assignSecretCode s ctx rnd now = Some (Inr (s', resp))"
  shows "payments s' = payments s"
  using assms by (cases rule: assignSecretCode_cases) auto

text \<open>What a committed confirmation has read and written.\<close>

lemma confirmPayment_tx_Inr:
  assumes "confirmPayment_tx s pid tid now = Inr s'"
  obtains cid cd where
    "pid < length (payments s)" "status (payments s ! pid) = Pending"
    "userCodeQuery s (p_userId (payments s ! pid)) (p_roundId (payments s ! pid)) = Some (cid, cd)"
    "requestedDigitIndex (payments s ! pid) < 7"
    "payments s' = (payments s)[pid := (payments s ! pid)
        \<lparr>status := Completed, transactionId := Some tid, paymentConfirmedAt := Some now,
         hintProvided := True\<rparr>]"
    "userCodes s' = (userCodes s)[cid := cd
        \<lparr>hintPurchases := hintPurchases cd + 1,
         revealedDigits :=
           (if requestedDigitIndex (payments s ! pid) \<notin> set (revealedDigits cd)
            then sort (revealedDigits cd @ [requestedDigitIndex (payments s ! pid)])
            else revealedDigits cd)\<rparr>]"
proof -
  from assms have p: "pid < length (payments s)" "status (payments s ! pid) = Pending"
    by (auto simp: confirmPayment_tx_def Let_def split: if_splits)
  with assms obtain cid cd where
    c: "userCodeQuery s (p_userId (payments s ! pid)) (p_roundId (payments s ! pid)) = Some (cid, cd)"
    by (cases "userCodeQuery s (p_userId (payments s ! pid)) (p_roundId (payments s ! pid))")
       (auto simp: confirmPayment_tx_def Let_def paymentVerifiedExternally_def)
  from userCodeQuery_Some[OF c] have cid: "cid < length (userCodes s)" "userCodes s ! cid = cd"
    by simp_all
  from assms p c have i: "requestedDigitIndex (payments s ! pid) < 7"
    by (auto simp: confirmPayment_tx_def Let_def paymentVerifiedExternally_def split: if_splits)
  from assms p c i obtain d where d: "users s (p_userId (payments s ! pid)) = Some d"
    by (cases "users s (p_userId (payments s ! pid))")
       (auto simp: confirmPayment_tx_def Let_def paymentVerifiedExternally_def)
  from assms p c i d
  have s': "s' = updatePayment pid (\<lambda>p. p\<lparr>hintProvided := True\<rparr>)
       (updateUser (p_userId (payments s ! pid))
          (\<lambda>d. d\<lparr>hintCount := hintCount d + 1,
                 revealedHintDigits :=
                   (if requestedDigitIndex (payments s ! pid) \<notin> set (revealedDigits cd)
                    then sort (revealedDigits cd @ [requestedDigitIndex (payments s ! pid)])
                    else revealedDigits cd)\<rparr>)
          (updateUserCode cid
             (\<lambda>c. c\<lparr>hintPurchases := hintPurchases c + 1,
                    revealedDigits :=
                      (if requestedDigitIndex (payments s ! pid) \<notin> set (revealedDigits cd)
                       then sort (revealedDigits cd @ [requestedDigitIndex (payments s ! pid)])
                       else revealedDigits cd)\<rparr>)
             (updatePayment pid
                (\<lambda>p. p\<lparr>status := Completed, transactionId := Some tid,
                       paymentConfirmedAt := Some now\<rparr>) s)))"
    by (simp add: confirmPayment_tx_def Let_def paymentVerifiedExternally_def)
  have "payments s' = (payments s)[pid := (payments s ! pid)
        \<lparr>status := Completed, transactionId := Some tid, paymentConfirmedAt := Some now,
         hintProvided := True\<rparr>]"
    unfolding s' using p(1) by simp
  moreover have "userCodes s' = (userCodes s)[cid := cd
        \<lparr>hintPurchases := hintPurchases cd + 1,
         revealedDigits :=
           (if requestedDigitIndex (payments s ! pid) \<notin> set (revealedDigits cd)
            then sort (revealedDigits cd @ [requestedDigitIndex (payments s ! pid)])
            else revealedDigits cd)\<rparr>]"
    unfolding s' using cid by simp
  ultimately show ?thesis using p c i by (intro that)
qed

lemma confirmPayment_processed:
  assumes "processed s pid" and "cr_paymentId req = Some pid"
  shows "fst (confirmPayment s req now) = s"
    and "cr_transactionId req = Some tid \<Longrightarrow> tid \<noteq> [] \<Longrightarrow>
         snd (confirmPayment s req now) = HttpResponse 200 ''Payment already processed.''"
  using assms
  by (auto simp: processed_def confirmPayment_def confirmPayment_tx_def Let_def
           split: option.splits)

lemma confirmPayment_keeps_processed:
  assumes "processed s pid"
  shows "processed (fst (confirmPayment s req now)) pid"
proof (cases "\<exists>pid' tid. cr_paymentId req = Some pid' \<and> cr_transactionId req = Some tid \<and> tid \<noteq> []
    \<and> (\<exists>s'. confirmPayment_tx s pid' tid now = Inr s')")
  case False
  then have "fst (confirmPayment s req now) = s"
    by (auto simp: confirmPayment_def split: option.splits sum.splits)
  with assms show ?thesis by simp
next
  case True
  then obtain pid' tid s' where t: "cr_paymentId req = Some pid'" "cr_transactionId req = Some tid"
    "tid \<noteq> []" "confirmPayment_tx s pid' tid now = Inr s'" by blast
  then have f: "fst (confirmPayment s req now) = s'" by (simp add: confirmPayment_def)
  from t(4) show ?thesis
  proof (cases rule: confirmPayment_tx_Inr)
    case (1 cid cd)
    from 1(2) assms have "pid' \<noteq> pid" by (auto simp: processed_def)
    with assms 1(5) show ?thesis unfolding f by (simp add: processed_def)
  qed
qed

lemma processed_step: "processed s pid \<Longrightarrow> processed (apply_op s opn) pid"
proof (cases opn)
  case (StartRound now)
  assume "processed s pid"
  with StartRound show ?thesis by (simp add: processed_def startRound_frame)
next
  case (AssignSecretCode ctx rnd now)
  assume "processed s pid"
  with AssignSecretCode show ?thesis
    by (auto simp: processed_def assignSecretCode_payments split: option.splits sum.splits)
next
  case (SubmitGuess ctx g now ts)
  assume "processed s pid"
  with SubmitGuess show ?thesis
    by (auto simp: processed_def submitGuess_payments split: sum.splits)
next
  case (RequestHint ctx r now ts)
  assume p: "processed s pid"
  show ?thesis
  proof (cases "requestHint s ctx r now ts")
    case (Inl e)
    with p RequestHint show ?thesis by simp
  next
    case (Inr q)
    obtain s' resp where q: "q = (s', resp)" by (cases q)
    from requestHint_payments[OF Inr[unfolded q]] obtain x where "payments s' = payments s @ [x]"
      by blast
    with p RequestHint Inr q show ?thesis by (simp add: processed_def nth_append)
  qed
next
  case (ConfirmPayment req now)
  assume "processed s pid"
  with ConfirmPayment show ?thesis by (simp add: confirmPayment_keeps_processed)
next
  case (FinishRound ridOpt now)
  assume "processed s pid"
  with FinishRound show ?thesis
    by (auto simp: processed_def finishRound_frame split: sum.splits)
qed

lemma processed_run: "processed s pid \<Longrightarrow> processed (run s ops) pid"
  unfolding run_def by (induction ops arbitrary: s) (auto intro: processed_step)

text \<open>
  C4. A call of confirmPayment that answers "Payment confirmed and hint provided" has raised
  hintPurchases of the player's code record by one and has added the requested position to
  revealedDigits unless it was there. From then on, whatever operations run in between,
  a further call with the same request id changes nothing in the store and, given a
  transaction id, answers 200 "Payment already processed".
\<close>

theorem confirmPayment_retry_safe:
  "confirmPayment s req now = (s1, HttpResponse 200 ''Payment confirmed and hint provided.'') \<longrightarrow>
     (\<exists>pid cid cd.
        cr_paymentId req = Some pid \<and> pid < length (payments s) \<and>
        userCodeQuery s (p_userId (payments s ! pid)) (p_roundId (payments s ! pid)) = Some (cid, cd) \<and>
        hintPurchases (userCodes s1 ! cid) = hintPurchases cd + 1 \<and>
        revealedDigits (userCodes s1 ! cid) =
          (if requestedDigitIndex (payments s ! pid) \<in> set (revealedDigits cd)
           then revealedDigits cd
           else sort (revealedDigits cd @ [requestedDigitIndex (payments s ! pid)])) \<and>
        (\<forall>ops req' now'. cr_paymentId req' = Some pid \<longrightarrow>
           fst (confirmPayment (run s1 ops) req' now') = run s1 ops \<and>
           (\<forall>tid. cr_transactionId req' = Some tid \<and> tid \<noteq> [] \<longrightarrow>
              snd (confirmPayment (run s1 ops) req' now') =
                HttpResponse 200 ''Payment already processed.'')))"
proof
  assume a: "confirmPayment s req now = (s1, HttpResponse 200 ''Payment confirmed and hint provided.'')"
  then obtain pid tid where r: "cr_paymentId req = Some pid" "cr_transactionId req = Some tid"
    "tid \<noteq> []"
    by (auto simp: confirmPayment_def split: option.splits if_splits)
  with a have tx: "confirmPayment_tx s pid tid now = Inr s1"
    by (auto simp: confirmPayment_def confirmPayment_tx_def Let_def
             split: sum.splits option.splits if_splits)
  from tx show "\<exists>pid cid cd.
        cr_paymentId req = Some pid \<and> pid < length (payments s) \<and>
        userCodeQuery s (p_userId (payments s ! pid)) (p_roundId (payments s ! pid)) = Some (cid, cd) \<and>
        hintPurchases (userCodes s1 ! cid) = hintPurchases cd + 1 \<and>
        revealedDigits (userCodes s1 ! cid) =
          (if requestedDigitIndex (payments s ! pid) \<in> set (revealedDigits cd)
           then revealedDigits cd
           else sort (revealedDigits cd @ [requestedDigitIndex (payments s ! pid)])) \<and>
        (\<forall>ops req' now'. cr_paymentId req' = Some pid \<longrightarrow>
           fst (confirmPayment (run s1 ops) req' now') = run s1 ops \<and>
           (\<forall>tid. cr_transactionId req' = Some tid \<and> tid \<noteq> [] \<longrightarrow>
              snd (confirmPayment (run s1 ops) req' now') =
                HttpResponse 200 ''Payment already processed.''))"
  proof (cases rule: confirmPayment_tx_Inr)
    case (1 cid cd)
    from userCodeQuery_Some[OF 1(3)] have cid: "cid < length (userCodes s)" by simp
    from 1(1,5) have p1: "processed s1 pid" by (simp add: processed_def)
    have later: "\<forall>ops req' now'. cr_paymentId req' = Some pid \<longrightarrow>
           fst (confirmPayment (run s1 ops) req' now') = run s1 ops \<and>
           (\<forall>tid. cr_transactionId req' = Some tid \<and> tid \<noteq> [] \<longrightarrow>
              snd (confirmPayment (run s1 ops) req' now') =
                HttpResponse 200 ''Payment already processed.'')"
      using confirmPayment_processed[OF processed_run[OF p1]] by blast
    from cid 1(6) have "hintPurchases (userCodes s1 ! cid) = hintPurchases cd + 1"
      and "revealedDigits (userCodes s1 ! cid) =
          (if requestedDigitIndex (payments s ! pid) \<in> set (revealedDigits cd)
           then revealedDigits cd
           else sort (revealedDigits cd @ [requestedDigitIndex (payments s ! pid)]))"
      by simp_all
    with r(1) 1(1,3) later show ?thesis by blast
  qed
qed

theorem confirmPayment_retry_safe_witness:
  "snd (confirmPayment (run init_store one_hint_trace) (confirm 0) 5) =
     HttpResponse 200 ''Payment confirmed and hint provided.'' \<and>
   map hintPurchases (userCodes (run init_store one_hint_trace)) = [0] \<and>
   map hintPurchases (userCodes (fst (confirmPayment (run init_store one_hint_trace) (confirm 0) 5))) = [1] \<and>
   map revealedDigits (userCodes (fst (confirmPayment (run init_store one_hint_trace) (confirm 0) 5))) = [[0]] \<and>
   confirmPayment (fst (confirmPayment (run init_store one_hint_trace) (confirm 0) 5)) (confirm 0) 6 =
     (fst (confirmPayment (run init_store one_hint_trace) (confirm 0) 5),
      HttpResponse 200 ''Payment already processed.'')"
proof -
  let ?s = "run init_store one_hint_trace"
  let ?s1 = "fst (confirmPayment ?s (confirm 0) 5)"
  have a: "snd (confirmPayment ?s (confirm 0) 5) = HttpResponse 200 ''Payment confirmed and hint provided.''"
    by code_simp
  then have a': "confirmPayment ?s (confirm 0) 5 = (?s1, HttpResponse 200 ''Payment confirmed and hint provided.'')"
    by (metis prod.collapse)
  have b: "map hintPurchases (userCodes ?s) = [0]" by code_simp
  have c: "map hintPurchases (userCodes ?s1) = [1]" by code_simp
  have d: "map revealedDigits (userCodes ?s1) = [[0]]" by code_simp
  from confirmPayment_retry_safe[THEN mp, OF a']
  obtain pid where p: "cr_paymentId (confirm 0) = Some pid"
    and l: "\<forall>ops req' now'. cr_paymentId req' = Some pid \<longrightarrow>
           fst (confirmPayment (run ?s1 ops) req' now') = run ?s1 ops \<and>
           (\<forall>tid. cr_transactionId req' = Some tid \<and> tid \<noteq> [] \<longrightarrow>
              snd (confirmPayment (run ?s1 ops) req' now') =
                HttpResponse 200 ''Payment already processed.'')"
    by blast
  from p have t: "cr_transactionId (confirm 0) = Some ''tx'' \<and> ''tx'' \<noteq> []"
    by (simp add: confirm_def)
  from l[rule_format, of "confirm 0" "[]" 6, OF p] t
  have "fst (confirmPayment ?s1 (confirm 0) 6) = ?s1"
    and "snd (confirmPayment ?s1 (confirm 0) 6) = HttpResponse 200 ''Payment already processed.''"
    by (simp_all add: run_def)
  then have "confirmPayment ?s1 (confirm 0) 6 = (?s1, HttpResponse 200 ''Payment already processed.'')"
    by (metis prod.collapse)
  with a b c d show ?thesis by blast
qed

subsection \<open>Attempts are charged when the call commits\<close>







subsection \<open>The rate limiter of submitGuess\<close>

lemma find_enumerate_SomeI:
  assumes "i < length xs" "P (i, xs ! i)" "\<forall>j<i. \<not> P (j, xs ! j)"
  shows "find P (enumerate 0 xs) = Some (i, xs ! i)"
proof -
  have "\<exists>k<length (enumerate 0 xs). P (enumerate 0 xs ! k) \<and> (i, xs ! i) = enumerate 0 xs ! k \<and>
      (\<forall>j<k. \<not> P (enumerate 0 xs ! j))"
    using assms by (intro exI[of _ i]) (simp add: nth_enumerate_eq)
  then show ?thesis by (simp only: find_Some_iff)
qed

lemma userCodeQuery_update:
  assumes q: "userCodeQuery s u rid = Some (cid, cd)"
    and u: "userCodes s' = (userCodes s)[cid := cd']"
    and k: "userId cd' = userId cd" "roundId cd' = roundId cd"
  shows "userCodeQuery s' u rid = Some (cid, cd')"
proof -
  let ?P = "\<lambda>(i, c). userId c = u \<and> roundId c = rid"
  from q have f: "find ?P (enumerate 0 (userCodes s)) = Some (cid, cd)"
    by (simp add: userCodeQuery_def)
  from find_enumerate_Some[OF f] have c: "cid < length (userCodes s)" "userCodes s ! cid = cd"
    "userId cd = u" "roundId cd = rid" by simp_all
  have "find ?P (enumerate 0 (userCodes s')) = Some (cid, userCodes s' ! cid)"
  proof (rule find_enumerate_SomeI)
    show "cid < length (userCodes s')" using c(1) u by simp
    show "?P (cid, userCodes s' ! cid)" using c k u by simp
    show "\<forall>j<cid. \<not> ?P (j, userCodes s' ! j)"
    proof (intro allI impI)
      fix j assume j: "j < cid"
      from find_enumerate_first[OF f j] have "\<not> ?P (j, userCodes s ! j)" .
      moreover from j u have "userCodes s' ! j = userCodes s ! j" by simp
      ultimately show "\<not> ?P (j, userCodes s' ! j)" by simp
    qed
  qed
  with c(1) u show ?thesis by (simp add: userCodeQuery_def)
qed

lemma activeRoundQuery_cong: "rounds s' = rounds s \<Longrightarrow> activeRoundQuery s' = activeRoundQuery s"
  by (simp add: activeRoundQuery_def)

text \<open>A wrong guess that the limiter admits: the call commits and the counter moves on.\<close>

lemma limiter_admits:
  assumes l: "limiter_state a cid secret s k lastTime"
    and g: "validGuess g" "\<not> areCodesEqual g secret"
    and n: "\<not> (withinWindow lastTime now RATE_LIMIT_WINDOW_MS \<and> MAX_ATTEMPTS_PER_WINDOW \<le> k)"
  shows "\<exists>s'. submitGuess s (Some a) g now ts = Inr (s', incorrect_response) \<and>
      limiter_state a cid secret s'
        ((if withinWindow lastTime now RATE_LIMIT_WINDOW_MS then k else 0) + 1) (Some ts)"
proof -
  from l obtain rid rd ud cd where
    s: "activeRoundQuery s = Some (rid, rd)" "users s (uid a) = Some ud"
      "userCodeQuery s (uid a) rid = Some (cid, cd)"
      "\<not> isWinnerInCurrentRound ud" "\<not> isWinner cd" "secretCode cd = secret"
      "attemptsInCurrentRound ud = k" "lastGuessAttempt ud = lastTime"
    unfolding limiter_state_def by blast
  let ?s' = "chargeAttempt (uid a) cid ud now ts s"
  from s g n have c: "submitGuess s (Some a) g now ts = Inr (?s', incorrect_response)"
    by (simp add: submitGuess_def Let_def incorrect_response_def)
  from userCodeQuery_Some[OF s(3)] have cid: "userCodes s ! cid = cd" by simp
  have "activeRoundQuery ?s' = Some (rid, rd)"
    using s(1) activeRoundQuery_cong[of ?s' s] by simp
  moreover have "users ?s' (uid a) =
      Some (ud\<lparr>attemptsInCurrentRound :=
                 (if withinWindow lastTime now RATE_LIMIT_WINDOW_MS then k else 0) + 1,
               lastGuessAttempt := Some ts\<rparr>)"
    using s(7,8) by (simp add: chargeAttempt_users[OF s(2)])
  moreover have "userCodeQuery ?s' (uid a) rid = Some (cid, cd\<lparr>attempts := attempts cd + 1\<rparr>)"
    by (rule userCodeQuery_update[OF s(3)]) (simp_all add: cid)
  ultimately have "limiter_state a cid secret ?s'
        ((if withinWindow lastTime now RATE_LIMIT_WINDOW_MS then k else 0) + 1) (Some ts)"
    unfolding limiter_state_def using s(4,5,6)
    by (intro exI[of _ rid] exI[of _ rd]
          exI[of _ "ud\<lparr>attemptsInCurrentRound :=
                 (if withinWindow lastTime now RATE_LIMIT_WINDOW_MS then k else 0) + 1,
               lastGuessAttempt := Some ts\<rparr>"]
          exI[of _ "cd\<lparr>attempts := attempts cd + 1\<rparr>"]) simp
  with c show ?thesis by blast
qed

text \<open>A guess, right or wrong, inside the window with the counter at the maximum.\<close>

lemma limiter_rejects:
  assumes l: "limiter_state a cid secret s k lastTime"
    and g: "validGuess g"
    and n: "withinWindow lastTime now RATE_LIMIT_WINDOW_MS" "MAX_ATTEMPTS_PER_WINDOW \<le> k"
  shows "submitGuess s (Some a) g now ts = Inl too_many_attempts"
proof -
  from l obtain rid rd ud cd where
    s: "activeRoundQuery s = Some (rid, rd)" "users s (uid a) = Some ud"
      "userCodeQuery s (uid a) rid = Some (cid, cd)"
      "\<not> isWinnerInCurrentRound ud" "\<not> isWinner cd"
      "attemptsInCurrentRound ud = k" "lastGuessAttempt ud = lastTime"
    unfolding limiter_state_def by blast
  with g n show ?thesis by (simp add: submitGuess_def too_many_attempts_def)
qed

lemma limiter_chain:
  "limiter_state a cid secret s k (Some t) \<Longrightarrow> spaced_within_window t gs \<Longrightarrow>
   wrong_guesses secret gs \<Longrightarrow> k + length gs \<le> MAX_ATTEMPTS_PER_WINDOW \<Longrightarrow>
   all_commit s (Some a) gs \<and>
   limiter_state a cid secret (submit_all s (Some a) gs) (k + length gs) (Some (last_stamp t gs))"
proof (induction gs arbitrary: s k t)
  case Nil
  then show ?case by simp
next
  case (Cons x gs)
  obtain g now ts where x: "x = (g, now, ts)" by (cases x)
  from Cons.prems(2) x have w: "now - t < RATE_LIMIT_WINDOW_MS" "spaced_within_window ts gs"
    by simp_all
  from Cons.prems(3) x have g: "validGuess g" "\<not> areCodesEqual g secret" "wrong_guesses secret gs"
    by (simp_all add: wrong_guesses_def)
  from Cons.prems(4) have k: "\<not> MAX_ATTEMPTS_PER_WINDOW \<le> k" "Suc k + length gs \<le> MAX_ATTEMPTS_PER_WINDOW"
    by simp_all
  from w(1) have ww: "withinWindow (Some t) now RATE_LIMIT_WINDOW_MS" by (simp add: withinWindow_def)
  from limiter_admits[OF Cons.prems(1) g(1,2), of now ts] k(1) ww
  obtain s' where s': "submitGuess s (Some a) g now ts = Inr (s', incorrect_response)"
      "limiter_state a cid secret s' (Suc k) (Some ts)" by auto
  from Cons.IH[OF s'(2) w(2) g(3) k(2)] s'(1) x show ?case by simp
qed

text \<open>
  C8. Take a player with a code in the active round who has not won, and a first guess that
  finds the window since the last counted attempt elapsed (or no attempt before it). If
  that guess and nine more, each made less than 60 seconds after the time stamp of the one
  before, are wrong guesses of the right shape, then all ten calls commit and the counter
  stands at 10; an eleventh guess less than 60 seconds after the tenth is rejected with
  resource-exhausted; and a guess made 60 seconds or more after the tenth commits with the
  counter set back, so that it reads 1 after the call.
\<close>

theorem rate_limiter_ten_per_window:
  "activeRoundQuery s = Some (rid, rd) \<and> users s (uid a) = Some ud \<and>
   userCodeQuery s (uid a) rid = Some (cid, cd) \<and>
   \<not> isWinnerInCurrentRound ud \<and> \<not> isWinner cd \<and>
   \<not> withinWindow (lastGuessAttempt ud) now0 RATE_LIMIT_WINDOW_MS \<and>
   length rest = 9 \<and> spaced_within_window ts0 rest \<and>
   wrong_guesses (secretCode cd) ((g0, now0, ts0) # rest) \<longrightarrow>
     all_commit s (Some a) ((g0, now0, ts0) # rest) \<and>
     map_option attemptsInCurrentRound (users (submit_all s (Some a) ((g0, now0, ts0) # rest)) (uid a))
       = Some 10 \<and>
     (\<forall>g now ts. validGuess g \<and> now - last_stamp ts0 rest < RATE_LIMIT_WINDOW_MS \<longrightarrow>
        submitGuess (submit_all s (Some a) ((g0, now0, ts0) # rest)) (Some a) g now ts
          = Inl too_many_attempts) \<and>
     (\<forall>g now ts. validGuess g \<and> \<not> areCodesEqual g (secretCode cd) \<and>
        \<not> now - last_stamp ts0 rest < RATE_LIMIT_WINDOW_MS \<longrightarrow>
        (\<exists>s'. submitGuess (submit_all s (Some a) ((g0, now0, ts0) # rest)) (Some a) g now ts
                = Inr (s', incorrect_response) \<and>
              map_option attemptsInCurrentRound (users s' (uid a)) = Some 1))"
proof
  assume h: "activeRoundQuery s = Some (rid, rd) \<and> users s (uid a) = Some ud \<and>
   userCodeQuery s (uid a) rid = Some (cid, cd) \<and>
   \<not> isWinnerInCurrentRound ud \<and> \<not> isWinner cd \<and>
   \<not> withinWindow (lastGuessAttempt ud) now0 RATE_LIMIT_WINDOW_MS \<and>
   length rest = 9 \<and> spaced_within_window ts0 rest \<and>
   wrong_guesses (secretCode cd) ((g0, now0, ts0) # rest)"
  let ?sec = "secretCode cd"
  let ?S = "submit_all s (Some a) ((g0, now0, ts0) # rest)"
  let ?t = "last_stamp ts0 rest"
  from h have l0: "limiter_state a cid ?sec s (attemptsInCurrentRound ud) (lastGuessAttempt ud)"
    unfolding limiter_state_def by blast
  from h have g0: "validGuess g0" "\<not> areCodesEqual g0 ?sec" "wrong_guesses ?sec rest"
    by (simp_all add: wrong_guesses_def)
  from h have n0: "\<not> withinWindow (lastGuessAttempt ud) now0 RATE_LIMIT_WINDOW_MS" by blast
  from limiter_admits[OF l0 g0(1,2), of now0 ts0] n0
  obtain s1 where s1: "submitGuess s (Some a) g0 now0 ts0 = Inr (s1, incorrect_response)"
      "limiter_state a cid ?sec s1 1 (Some ts0)" by auto
  from h have "1 + length rest \<le> MAX_ATTEMPTS_PER_WINDOW" "spaced_within_window ts0 rest"
    by (simp_all add: MAX_ATTEMPTS_PER_WINDOW_def)
  from limiter_chain[OF s1(2) this(2) g0(3) this(1)] h
  have c: "all_commit s1 (Some a) rest"
    and l10: "limiter_state a cid ?sec (submit_all s1 (Some a) rest) 10 (Some ?t)"
    by simp_all
  from s1(1) have S: "?S = submit_all s1 (Some a) rest" by simp
  from c s1(1) have A: "all_commit s (Some a) ((g0, now0, ts0) # rest)" by simp
  from l10 have B: "map_option attemptsInCurrentRound (users ?S (uid a)) = Some 10"
    unfolding S limiter_state_def by auto
  have C: "\<forall>g now ts. validGuess g \<and> now - ?t < RATE_LIMIT_WINDOW_MS \<longrightarrow>
        submitGuess ?S (Some a) g now ts = Inl too_many_attempts"
  proof (intro allI impI)
    fix g now ts assume "validGuess g \<and> now - ?t < RATE_LIMIT_WINDOW_MS"
    then show "submitGuess ?S (Some a) g now ts = Inl too_many_attempts"
      unfolding S
      by (intro limiter_rejects[OF l10]) (simp_all add: withinWindow_def MAX_ATTEMPTS_PER_WINDOW_def)
  qed
  have D: "\<forall>g now ts. validGuess g \<and> \<not> areCodesEqual g ?sec \<and>
        \<not> now - ?t < RATE_LIMIT_WINDOW_MS \<longrightarrow>
        (\<exists>s'. submitGuess ?S (Some a) g now ts = Inr (s', incorrect_response) \<and>
              map_option attemptsInCurrentRound (users s' (uid a)) = Some 1)"
  proof (intro allI impI)
    fix g now ts
    assume a: "validGuess g \<and> \<not> areCodesEqual g ?sec \<and> \<not> now - ?t < RATE_LIMIT_WINDOW_MS"
    then have nw: "\<not> withinWindow (Some ?t) now RATE_LIMIT_WINDOW_MS" by (simp add: withinWindow_def)
    from a limiter_admits[OF l10, of g now ts] nw
    obtain s' where "submitGuess (submit_all s1 (Some a) rest) (Some a) g now ts = Inr (s', incorrect_response)"
      "limiter_state a cid ?sec s' 1 (Some ts)" by auto
    then show "\<exists>s'. submitGuess ?S (Some a) g now ts = Inr (s', incorrect_response) \<and>
              map_option attemptsInCurrentRound (users s' (uid a)) = Some 1"
      unfolding S limiter_state_def by auto
  qed
  from A B C D show "all_commit s (Some a) ((g0, now0, ts0) # rest) \<and>
     map_option attemptsInCurrentRound (users ?S (uid a)) = Some 10 \<and>
     (\<forall>g now ts. validGuess g \<and> now - ?t < RATE_LIMIT_WINDOW_MS \<longrightarrow>
        submitGuess ?S (Some a) g now ts = Inl too_many_attempts) \<and>
     (\<forall>g now ts. validGuess g \<and> \<not> areCodesEqual g ?sec \<and>
        \<not> now - ?t < RATE_LIMIT_WINDOW_MS \<longrightarrow>
        (\<exists>s'. submitGuess ?S (Some a) g now ts = Inr (s', incorrect_response) \<and>
              map_option attemptsInCurrentRound (users s' (uid a)) = Some 1))"
    by blast
qed

theorem rate_limiter_ten_per_window_witness:
  "all_commit (run init_store one_player_trace) (Some p0) ten_guesses \<and>
   map_option attemptsInCurrentRound
     (users (submit_all (run init_store one_player_trace) (Some p0) ten_guesses) ''p0'') = Some 10 \<and>
   submitGuess (submit_all (run init_store one_player_trace) (Some p0) ten_guesses) (Some p0)
     (code_of 0) 50000 50001 = Inl too_many_attempts \<and>
   (\<exists>s'. submitGuess (submit_all (run init_store one_player_trace) (Some p0) ten_guesses) (Some p0)
            wrong 106001 106002 = Inr (s', incorrect_response) \<and>
         map_option attemptsInCurrentRound (users s' ''p0'') = Some 1)"
proof -
  let ?s = "run init_store one_player_trace"
  let ?ud = "the (users ?s ''p0'')"
  let ?cd = "hd (userCodes ?s)"
  have t: "ten_guesses = (wrong, 1000, 1001) # tl ten_guesses" by code_simp
  have u: "uid p0 = ''p0''" by (simp add: p0_def)
  have h1: "activeRoundQuery ?s = Some (0, hd (rounds ?s))" by code_simp
  have h2: "users ?s (uid p0) = Some ?ud" by code_simp
  have h3: "userCodeQuery ?s (uid p0) 0 = Some (0, ?cd)" by code_simp
  have h4: "\<not> isWinnerInCurrentRound ?ud" by code_simp
  have h5: "\<not> isWinner ?cd" by code_simp
  have h6: "\<not> withinWindow (lastGuessAttempt ?ud) 1000 RATE_LIMIT_WINDOW_MS" by code_simp
  have h7: "length (tl ten_guesses) = 9" by code_simp
  have h8: "spaced_within_window 1001 (tl ten_guesses)" by code_simp
  have h9: "wrong_guesses (secretCode ?cd) ((wrong, 1000, 1001) # tl ten_guesses)" by code_simp
  note hyp = conjI[OF h1 conjI[OF h2 conjI[OF h3 conjI[OF h4 conjI[OF h5 conjI[OF h6
      conjI[OF h7 conjI[OF h8 h9]]]]]]]]
  note concl = rate_limiter_ten_per_window[THEN mp, OF hyp, folded t, unfolded u]
  let ?S = "submit_all ?s (Some p0) ten_guesses"
  from concl have A: "all_commit ?s (Some p0) ten_guesses"
    and B: "map_option attemptsInCurrentRound (users ?S ''p0'') = Some 10"
    and C: "\<forall>g now ts. validGuess g \<and> now - last_stamp 1001 (tl ten_guesses) < RATE_LIMIT_WINDOW_MS \<longrightarrow>
        submitGuess ?S (Some p0) g now ts = Inl too_many_attempts"
    and D: "\<forall>g now ts. validGuess g \<and> \<not> areCodesEqual g (secretCode ?cd) \<and>
        \<not> now - last_stamp 1001 (tl ten_guesses) < RATE_LIMIT_WINDOW_MS \<longrightarrow>
        (\<exists>s'. submitGuess ?S (Some p0) g now ts = Inr (s', incorrect_response) \<and>
              map_option attemptsInCurrentRound (users s' ''p0'') = Some 1)"
    by blast+
  have c: "validGuess (code_of 0) \<and> 50000 - last_stamp 1001 (tl ten_guesses) < RATE_LIMIT_WINDOW_MS"
    by code_simp
  have d: "validGuess wrong \<and> \<not> areCodesEqual wrong (secretCode ?cd) \<and>
        \<not> 106001 - last_stamp 1001 (tl ten_guesses) < RATE_LIMIT_WINDOW_MS"
    by code_simp
  from C[rule_format, OF c] have C': "submitGuess ?S (Some p0) (code_of 0) 50000 50001 = Inl too_many_attempts" .
  from D[rule_format, OF d] have D': "\<exists>s'. submitGuess ?S (Some p0) wrong 106001 106002 = Inr (s', incorrect_response) \<and>
         map_option attemptsInCurrentRound (users s' ''p0'') = Some 1" .
  from A B C' D' show ?thesis by blast
qed

subsection \<open>Responses do not depend on the stored secret codes\<close>

lemma hide_eq_fields:
  assumes "hide c1 = hide c2"
  shows "userId c1 = userId c2" "roundId c1 = roundId c2" "isWinner c1 = isWinner c2"
    "attempts c1 = attempts c2" "hintPurchases c1 = hintPurchases c2"
    "revealedDigits c1 = revealedDigits c2"
  using assms by (cases c1; cases c2; simp add: hide_def)+

lemma same_public_sym: "same_public s1 s2 \<Longrightarrow> same_public s2 s1"
  by (simp add: same_public_def)

lemma same_public_nth:
  assumes "same_public s1 s2"
  shows "length (userCodes s1) = length (userCodes s2)"
    and "i < length (userCodes s1) \<Longrightarrow> hide (userCodes s1 ! i) = hide (userCodes s2 ! i)"
proof -
  from assms have m: "map hide (userCodes s1) = map hide (userCodes s2)"
    by (simp add: same_public_def)
  then show l: "length (userCodes s1) = length (userCodes s2)" by (rule map_eq_imp_length_eq)
  assume i: "i < length (userCodes s1)"
  from m have "map hide (userCodes s1) ! i = map hide (userCodes s2) ! i" by simp
  with i l show "hide (userCodes s1 ! i) = hide (userCodes s2 ! i)" by simp
qed

lemma same_public_userCodeQuery_Some:
  assumes p: "same_public s1 s2" and q: "userCodeQuery s1 u rid = Some (cid, c1)"
  shows "userCodeQuery s2 u rid = Some (cid, userCodes s2 ! cid) \<and>
     cid < length (userCodes s1) \<and> c1 = userCodes s1 ! cid \<and> hide c1 = hide (userCodes s2 ! cid)"
proof -
  let ?P = "\<lambda>(i, c). userId c = u \<and> roundId c = rid"
  from q have f: "find ?P (enumerate 0 (userCodes s1)) = Some (cid, c1)"
    by (simp add: userCodeQuery_def)
  from find_enumerate_Some[OF f] have c: "cid < length (userCodes s1)" "userCodes s1 ! cid = c1"
    "userId c1 = u" "roundId c1 = rid" by simp_all
  note l = same_public_nth(1)[OF p]
  from same_public_nth(2)[OF p c(1)] c(2) have h: "hide c1 = hide (userCodes s2 ! cid)" by simp
  have "find ?P (enumerate 0 (userCodes s2)) = Some (cid, userCodes s2 ! cid)"
  proof (rule find_enumerate_SomeI)
    show "cid < length (userCodes s2)" using c(1) l by simp
    show "?P (cid, userCodes s2 ! cid)" using hide_eq_fields(1,2)[OF h] c(3,4) by simp
    show "\<forall>j<cid. \<not> ?P (j, userCodes s2 ! j)"
    proof (intro allI impI)
      fix j assume j: "j < cid"
      from find_enumerate_first[OF f j] have n: "\<not> ?P (j, userCodes s1 ! j)" .
      from j c(1) have "j < length (userCodes s1)" by simp
      from hide_eq_fields(1,2)[OF same_public_nth(2)[OF p this]] n
      show "\<not> ?P (j, userCodes s2 ! j)" by simp
    qed
  qed
  with c h show ?thesis by (simp add: userCodeQuery_def)
qed

lemma same_public_userCodeQuery_None:
  assumes p: "same_public s1 s2" and q: "userCodeQuery s1 u rid = None"
  shows "userCodeQuery s2 u rid = None"
proof (cases "userCodeQuery s2 u rid")
  case None
  then show ?thesis .
next
  case (Some x)
  obtain cid c2 where "x = (cid, c2)" by (cases x)
  with Some same_public_userCodeQuery_Some[OF same_public_sym[OF p], of u rid cid c2] q
  show ?thesis by simp
qed

lemma same_public_queries:
  assumes "same_public s1 s2"
  shows "activeRoundQuery s1 = activeRoundQuery s2" "users s1 = users s2"
  using assms by (simp_all add: same_public_def activeRoundQuery_def)

lemma requestHint_payload:
  assumes p: "same_public s1 s2"
  shows "payload (requestHint s1 ctx r now ts) = payload (requestHint s2 ctx r now ts)"
proof (cases ctx)
  case None
  then show ?thesis by (simp add: requestHint_def)
next
  case (Some a)
  note q = same_public_queries[OF p]
  show ?thesis
  proof (cases "users s1 (uid a)")
    case None
    with Some q show ?thesis by (simp add: requestHint_def)
  next
    case u: (Some ud)
    show ?thesis
    proof (cases "activeRoundQuery s1")
      case None
      with Some u q show ?thesis by (simp add: requestHint_def)
    next
      case ar: (Some x)
      obtain rid rd where x: "x = (rid, rd)" by (cases x)
      show ?thesis
      proof (cases "userCodeQuery s1 (uid a) rid")
        case None
        with same_public_userCodeQuery_None[OF p None] Some u ar x q show ?thesis
          by (simp add: requestHint_def)
      next
        case c: (Some y)
        obtain cid c1 where y: "y = (cid, c1)" by (cases y)
        note k = same_public_userCodeQuery_Some[OF p c[unfolded y]]
        from k have c2: "userCodeQuery s2 (uid a) rid = Some (cid, userCodes s2 ! cid)" by (rule conjunct1)
        from k have h: "hide c1 = hide (userCodes s2 ! cid)" by blast
        note f = hide_eq_fields(3,5,6)[OF h]
        have 1: "payload (requestHint s1 ctx r now ts) =
            (if isWinnerInCurrentRound ud \<or> isWinner c1 then
               Inl (HttpsError FailedPrecondition ''You cannot request a hint after winning.'' None)
             else if hintPurchases c1 \<ge> MAX_HINTS_PER_ROUND then
               Inl (HttpsError ResourceExhausted
                     ''You have reached the maximum number of hints for this round.'' None)
             else if withinWindow (lastHintRequest ud) now HINT_RATE_LIMIT_WINDOW_MS then
               Inl (HttpsError ResourceExhausted
                     ''Please wait a moment before requesting another hint.'' None)
             else if filter (\<lambda>index. index \<notin> set (revealedDigits c1)) [0..<7] = [] then
               Inl (HttpsError FailedPrecondition
                     ''All digits have already been revealed for your code.'' None)
             else Inr \<lparr>hr_success = True, hr_paymentInitiated = True,
                        hr_message = ''Hint request processed. Awaiting payment confirmation.'',
                        hr_amount = HINT_PRICE_USDT\<rparr>)"
          using Some u ar x c y by (simp add: requestHint_def Let_def payload_def)
        have 2: "payload (requestHint s2 ctx r now ts) =
            (if isWinnerInCurrentRound ud \<or> isWinner c1 then
               Inl (HttpsError FailedPrecondition ''You cannot request a hint after winning.'' None)
             else if hintPurchases c1 \<ge> MAX_HINTS_PER_ROUND then
               Inl (HttpsError ResourceExhausted
                     ''You have reached the maximum number of hints for this round.'' None)
             else if withinWindow (lastHintRequest ud) now HINT_RATE_LIMIT_WINDOW_MS then
               Inl (HttpsError ResourceExhausted
                     ''Please wait a moment before requesting another hint.'' None)
             else if filter (\<lambda>index. index \<notin> set (revealedDigits c1)) [0..<7] = [] then
               Inl (HttpsError FailedPrecondition
                     ''All digits have already been revealed for your code.'' None)
             else Inr \<lparr>hr_success = True, hr_paymentInitiated = True,
                        hr_message = ''Hint request processed. Awaiting payment confirmation.'',
                        hr_amount = HINT_PRICE_USDT\<rparr>)"
          using Some u[unfolded q(2)] ar[unfolded q(1)] x c2 f
          by (simp add: requestHint_def Let_def payload_def)
        show ?thesis by (simp only: 1 2)
      qed
    qed
  qed
qed

lemma submitGuess_payload:
  assumes p: "same_public s1 s2"
    and e: "\<forall>i<length (userCodes s1).
        areCodesEqual g (secretCode (userCodes s1 ! i)) = areCodesEqual g (secretCode (userCodes s2 ! i))"
  shows "payload (submitGuess s1 ctx g now ts) = payload (submitGuess s2 ctx g now ts)"
proof (cases ctx)
  case None
  then show ?thesis by (simp add: submitGuess_def)
next
  case (Some a)
  note q = same_public_queries[OF p]
  show ?thesis
  proof (cases "validGuess g")
    case False
    with Some show ?thesis by (simp add: submitGuess_def)
  next
    case v: True
    show ?thesis
    proof (cases "activeRoundQuery s1")
      case None
      with Some v q show ?thesis by (simp add: submitGuess_def)
    next
      case ar: (Some x)
      obtain rid rd where x: "x = (rid, rd)" by (cases x)
      show ?thesis
      proof (cases "users s1 (uid a)")
        case None
        with Some v ar x q show ?thesis by (simp add: submitGuess_def)
      next
        case u: (Some ud)
        show ?thesis
        proof (cases "userCodeQuery s1 (uid a) rid")
          case None
          with same_public_userCodeQuery_None[OF p None] Some v u ar x q show ?thesis
            by (simp add: submitGuess_def)
        next
          case c: (Some y)
          obtain cid c1 where y: "y = (cid, c1)" by (cases y)
          note k = same_public_userCodeQuery_Some[OF p c[unfolded y]]
          from k have c2: "userCodeQuery s2 (uid a) rid = Some (cid, userCodes s2 ! cid)" by (rule conjunct1)
          from k have h: "hide c1 = hide (userCodes s2 ! cid)" by blast
          from k have cid: "cid < length (userCodes s1)" "c1 = userCodes s1 ! cid" by blast+
          note f = hide_eq_fields(3)[OF h]
          from e cid have eq: "areCodesEqual g (secretCode (userCodes s2 ! cid)) = areCodesEqual g (secretCode c1)"
            by simp
          let ?resp = "\<lambda>s. if isWinnerInCurrentRound ud then
               Inl (HttpsError FailedPrecondition ''You have already won in this round.'' None)
             else if isWinner c1 then
               Inl (HttpsError FailedPrecondition ''You have already won in this round.'' None)
             else if withinWindow (lastGuessAttempt ud) now RATE_LIMIT_WINDOW_MS
                     \<and> attemptsInCurrentRound ud \<ge> MAX_ATTEMPTS_PER_WINDOW then
               Inl too_many_attempts
             else if areCodesEqual g (secretCode c1) then
               if winnerCount rd \<ge> maxWinners rd then
                 Inl (HttpsError FailedPrecondition ''Round has already reached maximum winners.'' None)
               else Inr (correct_response (winnerCount rd + 1 = maxWinners rd) (winnerCount rd + 1))
             else Inr incorrect_response"
          have 1: "payload (submitGuess s1 ctx g now ts) = ?resp s1"
            using Some v u ar x c y
            by (simp add: submitGuess_def Let_def payload_def split_beta too_many_attempts_def
                  correct_response_def incorrect_response_def)
          have 2: "payload (submitGuess s2 ctx g now ts) = ?resp s2"
            using Some v u[unfolded q(2)] ar[unfolded q(1)] x c2 f eq
            by (simp add: submitGuess_def Let_def payload_def split_beta too_many_attempts_def
                  correct_response_def incorrect_response_def)
          show ?thesis by (simp only: 1 2)
        qed
      qed
    qed
  qed
qed

lemma assignSecretCode_payload:
  assumes p: "same_public s1 s2"
    and r1: "assignSecretCode s1 ctx rnd now = Some r1"
    and r2: "assignSecretCode s2 ctx rnd now = Some r2"
  shows "payload r1 = payload r2"
proof (cases ctx)
  case None
  with r1 r2 show ?thesis by (auto simp: assignSecretCode_def)
next
  case (Some a)
  note q = same_public_queries[OF p]
  show ?thesis
  proof (cases "activeRoundQuery s1")
    case None
    with Some r1 r2 q show ?thesis by (auto simp: assignSecretCode_def)
  next
    case ar: (Some x)
    obtain rid rd where x: "x = (rid, rd)" by (cases x)
    show ?thesis
    proof (cases "userCodeQuery s1 (uid a) rid")
      case c: (Some y)
      obtain cid c1 where y: "y = (cid, c1)" by (cases y)
      from same_public_userCodeQuery_Some[OF p c[unfolded y]]
      have c2: "userCodeQuery s2 (uid a) rid = Some (cid, userCodes s2 ! cid)" by simp
      from r1 Some ar x c have "payload r1 =
          Inr \<lparr>ar_success = True, ar_roundId = rid,
               ar_message = ''Secret code already exists for the active round.''\<rparr>"
        by (auto simp: assignSecretCode_def payload_def)
      moreover from r2 Some ar[unfolded q(1)] x c2 have "payload r2 =
          Inr \<lparr>ar_success = True, ar_roundId = rid,
               ar_message = ''Secret code already exists for the active round.''\<rparr>"
        by (auto simp: assignSecretCode_def payload_def)
      ultimately show ?thesis by simp
    next
      case None
      note n2 = same_public_userCodeQuery_None[OF p None]
      from r1 Some ar x None have "payload r1 =
          Inr \<lparr>ar_success = True, ar_roundId = rid,
               ar_message = ''Secret code assigned for the active round.''\<rparr>"
        by (cases "findUniqueCode (userCodes s1) rid rnd 0")
           (auto simp: assignSecretCode_def payload_def Let_def)
      moreover from r2 Some ar[unfolded q(1)] x n2 have "payload r2 =
          Inr \<lparr>ar_success = True, ar_roundId = rid,
               ar_message = ''Secret code assigned for the active round.''\<rparr>"
        by (cases "findUniqueCode (userCodes s2) rid rnd 0")
           (auto simp: assignSecretCode_def payload_def Let_def)
      ultimately show ?thesis by simp
    qed
  qed
qed

text \<open>
  C9. Let two stores differ only in the secret codes they hold (in the code records and in
  the winners' audit copies). Then requestHint answers both with the same payload, error or
  response; assignSecretCode, when it returns on both, answers both with the same payload;
  and submitGuess answers both with the same payload whenever the guess is equal to the
  stored code of a record in the one store exactly when it is in the other. So a payload
  carries nothing of the secret sequence but, for submitGuess, whether the guess was equal
  to it.
\<close>

theorem responses_independent_of_secrets:
  "same_public s1 s2 \<longrightarrow>
     payload (requestHint s1 ctx r now ts) = payload (requestHint s2 ctx r now ts) \<and>
     (\<forall>r1 r2. assignSecretCode s1 ctx rnd now = Some r1 \<and> assignSecretCode s2 ctx rnd now = Some r2
        \<longrightarrow> payload r1 = payload r2) \<and>
     ((\<forall>i<length (userCodes s1).
          areCodesEqual g (secretCode (userCodes s1 ! i)) = areCodesEqual g (secretCode (userCodes s2 ! i)))
        \<longrightarrow> payload (submitGuess s1 ctx g now ts) = payload (submitGuess s2 ctx g now ts))"
proof (intro impI conjI allI)
  assume p: "same_public s1 s2"
  then show "payload (requestHint s1 ctx r now ts) = payload (requestHint s2 ctx r now ts)"
    by (rule requestHint_payload)
  fix r1 r2
  assume "assignSecretCode s1 ctx rnd now = Some r1 \<and> assignSecretCode s2 ctx rnd now = Some r2"
  with p show "payload r1 = payload r2" by (blast intro: assignSecretCode_payload)
next
  assume p: "same_public s1 s2"
    and "\<forall>i<length (userCodes s1).
          areCodesEqual g (secretCode (userCodes s1 ! i)) = areCodesEqual g (secretCode (userCodes s2 ! i))"
  then show "payload (submitGuess s1 ctx g now ts) = payload (submitGuess s2 ctx g now ts)"
    by (rule submitGuess_payload)
qed

theorem responses_independent_of_secrets_witness:
  "same_public (run init_store one_player_trace) other_secret_store \<and>
   map secretCode (userCodes (run init_store one_player_trace)) = [[0, 1, 2, 3, 4, 5, 6]] \<and>
   map secretCode (userCodes other_secret_store) = [[9, 8, 7, 6, 5, 4, 3]] \<and>
   payload (requestHint (run init_store one_player_trace) (player 0) 0 5 5) =
     payload (requestHint other_secret_store (player 0) 0 5 5) \<and>
   (\<exists>r1 r2. assignSecretCode (run init_store one_player_trace) (player 0) (\<lambda>k. k) 5 = Some r1 \<and>
      assignSecretCode other_secret_store (player 0) (\<lambda>k. k) 5 = Some r2 \<and>
      payload r1 = payload r2) \<and>
   payload (submitGuess (run init_store one_player_trace) (player 0) [1, 1, 1, 1, 1, 1, 1] 5 5) =
     payload (submitGuess other_secret_store (player 0) [1, 1, 1, 1, 1, 1, 1] 5 5) \<and>
   payload (submitGuess other_secret_store (player 0) [1, 1, 1, 1, 1, 1, 1] 5 5) = Inr incorrect_response"
proof -
  let ?s = "run init_store one_player_trace"
  let ?t = "other_secret_store"
  let ?g = "[1, 1, 1, 1, 1, 1, 1] :: int list"
  have "rounds ?s = rounds ?t" "users ?s = users ?t" "payments ?s = payments ?t"
    "winners ?s = winners ?t"
    by (simp_all add: other_secret_store_def)
  moreover have "map hide (userCodes ?s) = map hide (userCodes ?t)" by code_simp
  ultimately have sp: "same_public ?s ?t" by (simp add: same_public_def)
  note t = responses_independent_of_secrets[THEN mp, OF sp]
  have o1: "map secretCode (userCodes ?s) = [[0, 1, 2, 3, 4, 5, 6]]" by code_simp
  have o2: "map secretCode (userCodes ?t) = [[9, 8, 7, 6, 5, 4, 3]]" by code_simp
  from t have h: "payload (requestHint ?s (player 0) 0 5 5) = payload (requestHint ?t (player 0) 0 5 5)"
    by (rule conjunct1)
  have "case assignSecretCode ?s (player 0) (\<lambda>k. k) 5 of Some r \<Rightarrow> True | None \<Rightarrow> False"
    by code_simp
  then obtain r1 where r1: "assignSecretCode ?s (player 0) (\<lambda>k. k) 5 = Some r1"
    by (auto split: option.splits)
  have "case assignSecretCode ?t (player 0) (\<lambda>k. k) 5 of Some r \<Rightarrow> True | None \<Rightarrow> False"
    by code_simp
  then obtain r2 where r2: "assignSecretCode ?t (player 0) (\<lambda>k. k) 5 = Some r2"
    by (auto split: option.splits)
  from t[THEN conjunct2, THEN conjunct1] r1 r2 have "payload r1 = payload r2" by blast
  with r1 r2 have a: "\<exists>r1 r2. assignSecretCode ?s (player 0) (\<lambda>k. k) 5 = Some r1 \<and>
      assignSecretCode ?t (player 0) (\<lambda>k. k) 5 = Some r2 \<and> payload r1 = payload r2" by blast
  have l: "length (userCodes ?s) = 1" by code_simp
  have e0: "areCodesEqual ?g (secretCode (userCodes ?s ! 0)) =
      areCodesEqual ?g (secretCode (userCodes ?t ! 0))" by code_simp
  have e: "\<forall>i<length (userCodes ?s). areCodesEqual ?g (secretCode (userCodes ?s ! i)) =
      areCodesEqual ?g (secretCode (userCodes ?t ! i))"
    unfolding l using e0 by simp
  from t[THEN conjunct2, THEN conjunct2, THEN mp, OF e]
  have g: "payload (submitGuess ?s (player 0) ?g 5 5) = payload (submitGuess ?t (player 0) ?g 5 5)" .
  have i: "payload (submitGuess ?t (player 0) ?g 5 5) = Inr incorrect_response" by code_simp
  from sp o1 o2 h a g i show ?thesis by blast
qed

end
